theory Spec2Isabelle
  imports Main
begin

section \<open>Data model (main.go, lines 12-30)\<close>

text \<open>The three structs of main.go. Go strings are byte sequences, modelled as \<open>string\<close>.\<close>

record FamilyMember =
  ID :: string
  Name :: string
  ParentName :: string

record Edge =
  From :: string
  To :: string

record GraphOutput =
  Nodes :: "FamilyMember list"
  Edges :: "Edge list"

text \<open>
  Go's \<open>error\<close> values that occur in the program. \<open>Errorf msg cause\<close> is
  \<open>fmt.Errorf(msg + ": %w", cause)\<close>: an error that wraps its cause.
\<close>

datatype error =
    ErrVertexAlreadyExists
  | ErrVertexNotFound
  | ErrEdgeAlreadyExists
  | NodeNotFound string
  | ExecNotFound
  | ExitError nat
  | Errorf string error

section \<open>The directed graph of the imported graph library\<close>

text \<open>
  Modelled from the spec: the package \<open>github.com/dominikbraun/graph\<close> that main.go
  imports (\<open>graph.New\<close>, \<open>AddVertex\<close>, \<open>AddEdge\<close>, \<open>Vertex\<close>, \<open>AdjacencyMap\<close>,
  \<open>PredecessorMap\<close>, \<open>graph.DFS\<close>, \<open>graph.BFS\<close>) is not among the source files.
  The spec (section 3) describes the graph as "a directed structure over Entities keyed by
  ID, with adjacency derivable in both directions (successors = children, predecessors =
  parents)". The model keeps the vertices and the edges in the order in which they were
  added. A vertex is stored under its hash, which main.go fixes to be the member's ID
  (lines 36-38); adding a hash twice, adding an edge between unknown vertices and adding an
  edge twice are refused with an error and leave the graph as it was.
\<close>

record graph =
  vertices :: "(string \<times> FamilyMember) list"
  edges :: "(string \<times> string) list"

definition New :: graph where
  "New = \<lparr>vertices = [], edges = []\<rparr>"

definition hasVertex :: "graph \<Rightarrow> string \<Rightarrow> bool" where
  "hasVertex g k = (k \<in> set (map fst (vertices g)))"

definition AddVertex :: "graph \<Rightarrow> FamilyMember \<Rightarrow> error + graph" where
  "AddVertex g member =
     (if hasVertex g (ID member) then Inl ErrVertexAlreadyExists
      else Inr (g\<lparr>vertices := vertices g @ [(ID member, member)]\<rparr>))"

definition AddEdge :: "graph \<Rightarrow> string \<Rightarrow> string \<Rightarrow> error + graph" where
  "AddEdge g sourceHash targetHash =
     (if \<not> hasVertex g sourceHash then Inl ErrVertexNotFound
      else if \<not> hasVertex g targetHash then Inl ErrVertexNotFound
      else if (sourceHash, targetHash) \<in> set (edges g) then Inl ErrEdgeAlreadyExists
      else Inr (g\<lparr>edges := edges g @ [(sourceHash, targetHash)]\<rparr>))"

definition Vertex :: "graph \<Rightarrow> string \<Rightarrow> error + FamilyMember" where
  "Vertex g k = (case map_of (vertices g) k of None \<Rightarrow> Inl ErrVertexNotFound | Some m \<Rightarrow> Inr m)"

text \<open>
  main.go drops the error result of \<open>g.AddVertex\<close> and \<open>g.AddEdge\<close> (lines 45 and 55):
  after a refused call the program goes on with the unchanged graph.
\<close>

definition ignoringError :: "graph \<Rightarrow> error + graph \<Rightarrow> graph" where
  "ignoringError g r = (case r of Inl _ \<Rightarrow> g | Inr g' \<Rightarrow> g')"

section \<open>buildFamilyGraph (main.go, lines 34-67)\<close>

text \<open>
  Step 1 (lines 44-47): every member is added as a vertex and its name is recorded in
  \<open>nameToID\<close>; a Go map assignment overwrites an earlier entry for the same key.
\<close>

fun addNodes :: "FamilyMember list \<Rightarrow> graph \<times> (string \<rightharpoonup> string) \<Rightarrow> graph \<times> (string \<rightharpoonup> string)" where
  "addNodes [] (g, nameToID) = (g, nameToID)"
| "addNodes (member # members) (g, nameToID) =
     addNodes members
       (ignoringError g (AddVertex g member), nameToID(Name member \<mapsto> ID member))"

text \<open>Step 2 (lines 49-59): the parent references are resolved through \<open>nameToID\<close>.\<close>

definition addRelation :: "(string \<rightharpoonup> string) \<Rightarrow> FamilyMember \<Rightarrow> graph \<times> Edge list \<Rightarrow> graph \<times> Edge list" where
  "addRelation nameToID member st =
     (if ParentName member \<noteq> [] then
        (case nameToID (ParentName member) of
           Some parentID \<Rightarrow>
             (ignoringError (fst st) (AddEdge (fst st) parentID (ID member)),
              snd st @ [\<lparr>From = parentID, To = ID member\<rparr>])
         | None \<Rightarrow> st)
      else st)"

fun addEdges :: "(string \<rightharpoonup> string) \<Rightarrow> FamilyMember list \<Rightarrow> graph \<times> Edge list \<Rightarrow> graph \<times> Edge list" where
  "addEdges nameToID [] st = st"
| "addEdges nameToID (member # members) st =
     addEdges nameToID members (addRelation nameToID member st)"

definition nameToID_of :: "FamilyMember list \<Rightarrow> (string \<rightharpoonup> string)" where
  "nameToID_of members = snd (addNodes members (New, Map.empty))"

definition buildFamilyGraph :: "FamilyMember list \<Rightarrow> GraphOutput \<times> graph" where
  "buildFamilyGraph members =
     (let (g, nameToID) = addNodes members (New, Map.empty);
          (g', es) = addEdges nameToID members (g, [])
      in (\<lparr>Nodes = members, Edges = es\<rparr>, g'))"

text \<open>The dataset of \<open>main\<close> (lines 107-114).\<close>

definition familyData :: "FamilyMember list" where
  "familyData =
     [\<lparr>ID = ''1'', Name = ''Jordon D'', ParentName = ''''\<rparr>,
      \<lparr>ID = ''2'', Name = ''Robert Smith'', ParentName = ''''\<rparr>,
      \<lparr>ID = ''3'', Name = ''Danis Jordan'', ParentName = ''Jordon D''\<rparr>,
      \<lparr>ID = ''4'', Name = ''John Smith'', ParentName = ''Robert Smith''\<rparr>,
      \<lparr>ID = ''5'', Name = ''Maria Smith'', ParentName = ''Robert Smith''\<rparr>,
      \<lparr>ID = ''6'', Name = ''Leo Smith'', ParentName = ''John Smith''\<rparr>]"

section \<open>renderPNG (main.go, lines 72-101)\<close>

text \<open>
  The description text that lines 73-88 build. \<open>fmt.Sprintf\<close> with \<open>%s\<close> copies a
  string as it is: nothing is escaped.
\<close>

definition dquote :: char where
  "dquote = CHR 0x22"

definition newline :: char where
  "newline = CHR 0x0A"

definition quoted :: "string \<Rightarrow> string" where
  "quoted s = [dquote] @ s @ [dquote]"

definition nodeLine :: "FamilyMember \<Rightarrow> string" where
  "nodeLine n = ''  '' @ quoted (ID n) @ '' [label='' @ quoted (Name n) @ ''];'' @ [newline]"

definition edgeLine :: "Edge \<Rightarrow> string" where
  "edgeLine e = ''  '' @ quoted (From e) @ '' -> '' @ quoted (To e) @ '';'' @ [newline]"

definition dotHeader :: string where
  "dotHeader = ''digraph G {'' @ [newline] @ ''  rankdir=TB;'' @ [newline] @
     ''  node [shape=box, style=rounded];'' @ [newline]"

definition dotDescription :: "GraphOutput \<Rightarrow> string" where
  "dotDescription graphOut =
     dotHeader @ concat (map nodeLine (Nodes graphOut)) @ concat (map edgeLine (Edges graphOut)) @
     ''}'' @ [newline]"

text \<open>
  \<open>cmd.Run()\<close> of the external command is the program's one effect whose outcome the
  program cannot decide. It is a parameter: \<open>run name args stdin\<close> is the error that
  \<open>exec.Command(name, args...)\<close> with the given standard input returns from \<open>Run\<close>,
  \<open>None\<close> for \<open>nil\<close>. \<open>ExecNotFound\<close> stands for a command that is not installed,
  \<open>ExitError n\<close> for one that exits with the non-zero status \<open>n\<close>. The result of
  renderPNG is the lines it prints and the error it returns.
\<close>

type_synonym runner = "string \<Rightarrow> string list \<Rightarrow> string \<Rightarrow> error option"

definition renderFailed :: string where
  "renderFailed = ''failed to generate graph image. Is Graphviz installed?''"

definition renderPNG :: "runner \<Rightarrow> GraphOutput \<Rightarrow> string \<Rightarrow> string list \<times> error option" where
  "renderPNG run graphOut outPath =
     (let attempting = ''Attempting to generate graph image at '' @ [CHR 0x27] @ outPath @ [CHR 0x27] @ ''...''
      in case run ''dot'' [''-Tpng'', ''-o'', outPath] (dotDescription graphOut) of
           Some err \<Rightarrow> ([attempting], Some (Errorf renderFailed err))
         | None \<Rightarrow> ([attempting, ''Successfully generated '' @ outPath @ ''!''], None))"

section \<open>The queries of the graph library\<close>

text \<open>
  Modelled from the spec: \<open>AdjacencyMap\<close>, \<open>PredecessorMap\<close>, \<open>graph.DFS\<close> and
  \<open>graph.BFS\<close> belong to the imported library and are not among the source files.
  The spec (section 4.3) has DFS visit "each reachable node exactly once" along outgoing
  edges and BFS visit "in non-decreasing distance-from-start order", both with a visitor
  callback that "may request early termination", and a start ID that is not in the graph
  fail "with a NodeNotFound condition". The model is the library's iterative form of the two
  traversals: DFS keeps a stack, marks a vertex when it is popped and then pushes the
  vertex's successors one by one; BFS keeps a queue and marks a vertex when it is enqueued.
  Both maps have one entry per vertex, listing its successors (predecessors).

  The adjacency of a vertex is a Go map, and Go does not specify the order in which
  \<open>range\<close> runs through a map. The order is a parameter \<open>rng\<close>: \<open>range\<close> over a map
  whose keys were inserted in the order \<open>ks\<close> yields them in the order \<open>rng ks\<close>.
\<close>

definition AdjacencyMap :: "graph \<Rightarrow> (string \<times> string list) list" where
  "AdjacencyMap g =
     map (\<lambda>(k, _). (k, map snd (filter (\<lambda>e. fst e = k) (edges g)))) (vertices g)"

definition PredecessorMap :: "graph \<Rightarrow> (string \<times> string list) list" where
  "PredecessorMap g =
     map (\<lambda>(k, _). (k, map fst (filter (\<lambda>e. snd e = k) (edges g)))) (vertices g)"

text \<open>Indexing a Go map with a key it does not hold yields the zero value, an empty map.\<close>

definition index :: "(string \<times> string list) list \<Rightarrow> string \<Rightarrow> string list" where
  "index m k = (case map_of m k of None \<Rightarrow> [] | Some ts \<Rightarrow> ts)"

definition ranged :: "(string list \<Rightarrow> string list) \<Rightarrow> (string \<times> string list) list \<Rightarrow> (string \<times> string list) list" where
  "ranged rng m = map (\<lambda>(k, ts). (k, rng ts)) m"

text \<open>
  Both traversals end: a vertex that is marked is never marked again. For the stack of DFS,
  marking a key of the adjacency map leaves fewer unmarked keys, and a hash that is no key
  has no successors to push.
\<close>

lemma unvisited_keys_decrease:
  assumes "v \<notin> set visited"
  shows "card (fst ` set m - set (v # visited)) < card (fst ` set m - set visited) \<or>
    (card (fst ` set m - set (v # visited)) = card (fst ` set m - set visited) \<and> index m v = [])"
proof (cases "v \<in> fst ` set m")
  case True
  have "fst ` set m - set (v # visited) \<subset> fst ` set m - set visited"
    using True assms by auto
  then have "card (fst ` set m - set (v # visited)) < card (fst ` set m - set visited)"
    by (intro psubset_card_mono) auto
  then show ?thesis by simp
next
  case False
  then have "map_of m v = None" by (simp add: map_of_eq_None_iff)
  then have "index m v = []" by (simp add: index_def)
  moreover have "fst ` set m - set (v # visited) = fst ` set m - set visited"
    using False by auto
  ultimately show ?thesis by simp
qed

text \<open>
  The loop of \<open>graph.DFS\<close>. The result is the sequence of hashes handed to \<open>visit\<close>;
  \<open>visit\<close> returns true to stop the traversal. Pushing the successors one by one leaves
  the last one on top of the stack.
\<close>

function dfsLoop :: "(string \<times> string list) list \<Rightarrow> (string \<Rightarrow> bool) \<Rightarrow> string list \<Rightarrow> string list \<Rightarrow> string list" where
  "dfsLoop adjacencyMap visit [] visited = []"
| "dfsLoop adjacencyMap visit (currentHash # stack) visited =
     (if currentHash \<in> set visited then dfsLoop adjacencyMap visit stack visited
      else currentHash #
        (if visit currentHash then []
         else dfsLoop adjacencyMap visit
                (fold (#) (index adjacencyMap currentHash) stack) (currentHash # visited)))"
  by pat_completeness auto

termination
proof (relation "inv_image (less_than <*lex*> less_than)
    (\<lambda>(am, visit, stack, visited). (card (fst ` set am - set visited), length stack))",
    goal_cases)
  case 1
  show ?case by (intro wf_inv_image wf_lex_prod wf_less_than)
next
  case (2 adjacencyMap visit currentHash stack visited)
  then show ?case by simp
next
  case (3 adjacencyMap visit currentHash stack visited)
  then show ?case using unvisited_keys_decrease [of currentHash visited adjacencyMap] by auto
qed

definition DFS :: "(string list \<Rightarrow> string list) \<Rightarrow> graph \<Rightarrow> string \<Rightarrow> (string \<Rightarrow> bool) \<Rightarrow> error + string list" where
  "DFS rng g start visit =
     (let adjacencyMap = ranged rng (AdjacencyMap g)
      in if map_of adjacencyMap start = None then Inl (NodeNotFound start)
         else Inr (dfsLoop adjacencyMap visit [start] []))"

text \<open>
  The loop of \<open>graph.BFS\<close>: a successor that is not yet marked is marked and appended to
  the queue.
\<close>

fun enqueueNew :: "string list \<Rightarrow> string list \<times> string list \<Rightarrow> string list \<times> string list" where
  "enqueueNew [] (queue, visited) = (queue, visited)"
| "enqueueNew (adjacency # rest) (queue, visited) =
     enqueueNew rest
       (if adjacency \<in> set visited then (queue, visited)
        else (queue @ [adjacency], adjacency # visited))"

text \<open>The successors that one run of the inner loop appends, in the order of appending.\<close>

fun fresh :: "string list \<Rightarrow> string list \<Rightarrow> string list" where
  "fresh [] visited = []"
| "fresh (a # rest) visited =
     (if a \<in> set visited then fresh rest visited else a # fresh rest (a # visited))"

lemma enqueueNew_fresh:
  "enqueueNew adj (queue, visited) = (queue @ fresh adj visited, rev (fresh adj visited) @ visited)"
  by (induction adj arbitrary: queue visited) simp_all

lemma fresh_subset: "set (fresh adj visited) \<subseteq> set adj - set visited"
  by (induction adj visited rule: fresh.induct) auto

definition universe :: "(string \<times> string list) list \<Rightarrow> string set" where
  "universe m = fst ` set m \<union> (\<Union>(k, ts) \<in> set m. set ts)"

lemma finite_universe [simp]: "finite (universe m)"
  by (auto simp: universe_def)

lemma index_subset_universe: "set (index m k) \<subseteq> universe m"
proof (cases "map_of m k")
  case None
  then show ?thesis by (simp add: index_def)
next
  case (Some ts)
  then have "(k, ts) \<in> set m" by (rule map_of_SomeD)
  then have "set ts \<subseteq> universe m" by (auto simp: universe_def)
  then show ?thesis using Some by (simp add: index_def)
qed

function bfsLoop :: "(string \<times> string list) list \<Rightarrow> (string \<Rightarrow> bool) \<Rightarrow> string list \<Rightarrow> string list \<Rightarrow> string list" where
  "bfsLoop adjacencyMap visit [] visited = []"
| "bfsLoop adjacencyMap visit (currentHash # queue) visited =
     currentHash #
       (if visit currentHash then []
        else (case enqueueNew (index adjacencyMap currentHash) (queue, visited) of
                (queue', visited') \<Rightarrow> bfsLoop adjacencyMap visit queue' visited'))"
  by pat_completeness auto

termination
proof (relation "inv_image (less_than <*lex*> less_than)
    (\<lambda>(am, visit, queue, visited). (card (universe am - set visited), length queue))",
    goal_cases)
  case 1
  show ?case by (intro wf_inv_image wf_lex_prod wf_less_than)
next
  case (2 adjacencyMap visit currentHash queue visited queue' visited')
  let ?new = "fresh (index adjacencyMap currentHash) visited"
  have q: "queue' = queue @ ?new" and v: "visited' = rev ?new @ visited"
    using 2(2) by (simp_all add: enqueueNew_fresh)
  show ?case
  proof (cases "?new = []")
    case True
    then show ?thesis using q v by simp
  next
    case False
    then obtain a where a: "a \<in> set ?new" by (cases ?new) auto
    then have "a \<in> universe adjacencyMap" "a \<notin> set visited"
      using fresh_subset [of "index adjacencyMap currentHash" visited]
        index_subset_universe [of adjacencyMap currentHash] by auto
    then have "universe adjacencyMap - set visited' \<subset> universe adjacencyMap - set visited"
      using a v by auto
    then have "card (universe adjacencyMap - set visited') < card (universe adjacencyMap - set visited)"
      by (intro psubset_card_mono) auto
    then show ?thesis by simp
  qed
qed

definition BFS :: "(string list \<Rightarrow> string list) \<Rightarrow> graph \<Rightarrow> string \<Rightarrow> (string \<Rightarrow> bool) \<Rightarrow> error + string list" where
  "BFS rng g start visit =
     (let adjacencyMap = ranged rng (AdjacencyMap g)
      in if map_of adjacencyMap start = None then Inl (NodeNotFound start)
         else Inr (bfsLoop adjacencyMap visit [start] [start]))"

section \<open>main (main.go, lines 104-164)\<close>

text \<open>
  What the process leaves behind: its exit status and the lines written to standard output
  and to standard error. An element \<open>e\<close> of \<open>stderr\<close> stands for the line
  \<open>Error: \<close> followed by the text of the error \<open>e\<close>.
\<close>

record outcome =
  exitStatus :: nat
  stdout :: "string list"
  stderr :: "error list"

text \<open>
  The visitor callbacks (lines 128-132 and 137-141) look the vertex up, drop the error of
  the lookup, print the name and return false.
\<close>

definition zeroMember :: FamilyMember where
  "zeroMember = \<lparr>ID = [], Name = [], ParentName = []\<rparr>"

definition vertexName :: "graph \<Rightarrow> string \<Rightarrow> string" where
  "vertexName familyGraph v =
     Name (case Vertex familyGraph v of Inl _ \<Rightarrow> zeroMember | Inr member \<Rightarrow> member)"

text \<open>
  Operations 1 and 2. The error result of \<open>graph.DFS\<close> and of \<open>graph.BFS\<close> is
  assigned to the blank identifier; the lines printed are those of the visits.
\<close>

definition descendantTrace :: "(string list \<Rightarrow> string list) \<Rightarrow> graph \<Rightarrow> string \<Rightarrow> string list" where
  "descendantTrace rng familyGraph start =
     (case DFS rng familyGraph start (\<lambda>v. False) of
        Inl _ \<Rightarrow> []
      | Inr order \<Rightarrow> map (\<lambda>v. '' -> '' @ vertexName familyGraph v) order)"

definition generationSweep :: "(string list \<Rightarrow> string list) \<Rightarrow> graph \<Rightarrow> string \<Rightarrow> string list" where
  "generationSweep rng familyGraph start =
     (case BFS rng familyGraph start (\<lambda>v. False) of
        Inl _ \<Rightarrow> []
      | Inr order \<Rightarrow> map (\<lambda>v. '' - Found: '' @ vertexName familyGraph v) order)"

text \<open>Operations 3 and 4 (lines 146-163) run through the input list, not through the graph.\<close>

definition findRoots :: "graph \<Rightarrow> FamilyMember list \<Rightarrow> FamilyMember list" where
  "findRoots familyGraph members =
     filter (\<lambda>member. length (index (PredecessorMap familyGraph) (ID member)) = 0) members"

definition findLeaves :: "graph \<Rightarrow> FamilyMember list \<Rightarrow> FamilyMember list" where
  "findLeaves familyGraph members =
     filter (\<lambda>member. length (index (AdjacencyMap familyGraph) (ID member)) = 0) members"

definition rootLine :: "FamilyMember \<Rightarrow> string" where
  "rootLine member = '' - '' @ Name member @ '' is a root ancestor.''"

definition leafLine :: "FamilyMember \<Rightarrow> string" where
  "leafLine member = '' - '' @ Name member @ '' has no children.''"

text \<open>
  \<open>main\<close> with its dataset and the two start IDs as parameters; \<open>main\<close> itself is the
  instance at \<open>familyData\<close>, \<open>2\<close> and \<open>1\<close>. \<open>os.Exit(1)\<close> ends the process at
  once; returning from \<open>main\<close> ends it with status 0. Each of the two traversals builds
  its own adjacency map, so each has its own iteration order: \<open>rngDFS\<close> for the call of
  \<open>graph.DFS\<close> and \<open>rngBFS\<close> for the call of \<open>graph.BFS\<close>.
\<close>

definition program :: "runner \<Rightarrow> (string list \<Rightarrow> string list) \<Rightarrow> (string list \<Rightarrow> string list) \<Rightarrow> FamilyMember list \<Rightarrow> string \<Rightarrow> string \<Rightarrow> outcome" where
  "program run rngDFS rngBFS members dfsStart bfsStart =
     (case buildFamilyGraph members of (graphOutput, familyGraph) \<Rightarrow>
        (case renderPNG run graphOutput ''family_tree.png'' of
           (printed, Some err) \<Rightarrow> \<lparr>exitStatus = 1, stdout = printed, stderr = [err]\<rparr>
         | (printed, None) \<Rightarrow>
             \<lparr>exitStatus = 0,
              stdout = printed @
                ['''', ''--- Graph Operations ---''] @
                ['''', ''[DFS] Tracing all descendants of Robert Smith:''] @
                descendantTrace rngDFS familyGraph dfsStart @
                ['''', ''[BFS] Exploring family by generation starting from Jordon D:''] @
                generationSweep rngBFS familyGraph bfsStart @
                ['''', ''[Roots] Finding the original ancestors:''] @
                map rootLine (findRoots familyGraph members) @
                ['''', ''[Leaves] Finding members with no children:''] @
                map leafLine (findLeaves familyGraph members),
              stderr = []\<rparr>))"

definition main :: "runner \<Rightarrow> (string list \<Rightarrow> string list) \<Rightarrow> (string list \<Rightarrow> string list) \<Rightarrow> outcome" where
  "main run rngDFS rngBFS = program run rngDFS rngBFS familyData ''2'' ''1''"

section \<open>Notions used in the statements\<close>

subsection \<open>Resolved parent references\<close>

text \<open>
  Two abbreviations for the statements below: a member whose parent reference passes both
  tests of lines 52-53, and the edge that line 56 appends for it.
\<close>

definition resolvable :: "(string \<rightharpoonup> string) \<Rightarrow> FamilyMember \<Rightarrow> bool" where
  "resolvable n m = (ParentName m \<noteq> [] \<and> n (ParentName m) \<noteq> None)"

definition relationOf :: "(string \<rightharpoonup> string) \<Rightarrow> FamilyMember \<Rightarrow> Edge" where
  "relationOf n m = \<lparr>From = the (n (ParentName m)), To = ID m\<rparr>"

subsection \<open>Pre-order\<close>

text \<open>
  Pre-order as the spec words it (section 4.3): "visits a node, then recursively visits its
  first unvisited successor before any sibling". \<open>preorder succs pending visited\<close> runs
  through the nodes \<open>pending\<close>; a node that is not yet visited is visited, and its
  successors, in the order in which \<open>succs\<close> lists them, come before the nodes that were
  pending with it.
\<close>

function preorder :: "(string \<times> string list) list \<Rightarrow> string list \<Rightarrow> string list \<Rightarrow> string list" where
  "preorder succs [] visited = []"
| "preorder succs (v # pending) visited =
     (if v \<in> set visited then preorder succs pending visited
      else v # preorder succs (index succs v @ pending) (v # visited))"
  by pat_completeness auto

termination preorder
proof (relation "inv_image (less_than <*lex*> less_than)
    (\<lambda>(m, pending, visited). (card (fst ` set m - set visited), length pending))",
    goal_cases)
  case 1
  show ?case by (intro wf_inv_image wf_lex_prod wf_less_than)
next
  case (2 succs v pending visited)
  then show ?case by simp
next
  case (3 succs v pending visited)
  then show ?case using unvisited_keys_decrease [of v visited succs] by auto
qed

text \<open>
  \<open>avoiding succs V\<close> are the edges between nodes outside \<open>V\<close>, and
  \<open>reachAvoiding succs V S\<close> the nodes that a path outside \<open>V\<close> reaches from \<open>S\<close>.
\<close>

definition avoiding :: "(string \<times> string list) list \<Rightarrow> string set \<Rightarrow> (string \<times> string) set" where
  "avoiding succs V = {(u, w). w \<in> set (index succs u) \<and> u \<notin> V \<and> w \<notin> V}"

definition reachAvoiding :: "(string \<times> string list) list \<Rightarrow> string set \<Rightarrow> string set \<Rightarrow> string set" where
  "reachAvoiding succs V S = {w. \<exists>u \<in> S. u \<notin> V \<and> (u, w) \<in> (avoiding succs V)\<^sup>*}"

subsection \<open>Generations of a sweep, distance from the start\<close>

lemma set_fresh: "set (fresh adj visited) = set adj - set visited"
  by (induction adj visited rule: fresh.induct) auto

text \<open>
  The generations of a sweep: a generation is followed by the successors of its nodes that
  were not discovered before, in the order of their discovery (the nodes of the generation
  in their own order, the successors of each node in the order in which \<open>succs\<close> lists
  them).
\<close>

function generations :: "(string \<times> string list) list \<Rightarrow> string list \<Rightarrow> string list \<Rightarrow> string list list" where
  "generations succs level visited =
     (if level = [] then []
      else level #
        generations succs (fresh (concat (map (index succs) level)) visited)
          (rev (fresh (concat (map (index succs) level)) visited) @ visited))"
  by pat_completeness auto

termination
proof (relation "inv_image (less_than <*lex*> less_than)
    (\<lambda>(m, level, visited). (card (universe m - set visited), length level))",
    goal_cases)
  case 1
  show ?case by (intro wf_inv_image wf_lex_prod wf_less_than)
next
  case (2 succs level visited)
  let ?new = "fresh (concat (map (index succs) level)) visited"
  show ?case
  proof (cases "?new = []")
    case True
    then show ?thesis using 2 by simp
  next
    case False
    then obtain a where a: "a \<in> set ?new" by (cases ?new) auto
    then have "a \<in> universe succs" "a \<notin> set visited"
      using index_subset_universe [of succs] by (auto simp: set_fresh)
    then have "universe succs - set (rev ?new @ visited) \<subset> universe succs - set visited"
      using a by auto
    then have "card (universe succs - set (rev ?new @ visited)) < card (universe succs - set visited)"
      by (intro psubset_card_mono) auto
    then show ?thesis by simp
  qed
qed

declare generations.simps [simp del]

text \<open>
  The distance from the start: \<open>ball E s n\<close> are the nodes that at most \<open>n\<close> edges of
  \<open>E\<close> reach from \<open>s\<close>, and the distance of a node is the least such \<open>n\<close>.
\<close>

fun ball :: "(string \<times> string) set \<Rightarrow> string \<Rightarrow> nat \<Rightarrow> string set" where
  "ball E s 0 = {s}"
| "ball E s (Suc n) = ball E s n \<union> E `` ball E s n"

definition distance :: "(string \<times> string) set \<Rightarrow> string \<Rightarrow> string \<Rightarrow> nat" where
  "distance E s v = (LEAST n. v \<in> ball E s n)"

definition ring :: "(string \<times> string) set \<Rightarrow> string \<Rightarrow> nat \<Rightarrow> string set" where
  "ring E s n = {v. v \<in> ball E s n \<and> (\<forall>m < n. v \<notin> ball E s m)}"

subsection \<open>A reader of the description text\<close>

text \<open>
  Modelled from the spec: the "standard directed-graph grammar reader" of testable
  property 6 is no part of the repository. \<open>readDot\<close> reads the fragment of the DOT
  language that renderPNG writes. Its tokens are those of DOT: a quoted string runs from a
  double quote to the next double quote that is not escaped by a backslash (the pair
  backslash, double quote stands for a double quote inside the string), an identifier is a
  run of letters, digits and underscores, any other character that is not white space is
  a token of its own, and white space outside a quoted string only separates tokens. After
  the preamble that renderPNG writes, a node statement is a quoted ID with a label
  attribute, an edge statement is two quoted IDs joined by an arrow, and a closing brace
  ends the graph.
\<close>

datatype token = Str string | Ident string | Sym char

datatype mode = Outside | InId string | InStr string

definition backslash :: char where
  "backslash = CHR 0x5C"

definition isSpace :: "char \<Rightarrow> bool" where
  "isSpace c = (c = CHR '' '' \<or> c = newline \<or> c = CHR 0x09 \<or> c = CHR 0x0D)"

definition isIdChar :: "char \<Rightarrow> bool" where
  "isIdChar c = (c \<in> set ''abcdefghijklmnopqrstuvwxyzABCDEFGHIJKLMNOPQRSTUVWXYZ0123456789_'')"

definition outsideStep :: "char \<Rightarrow> mode \<times> token list" where
  "outsideStep c =
     (if c = dquote then (InStr [], [])
      else if isSpace c then (Outside, [])
      else if isIdChar c then (InId [c], [])
      else (Outside, [Sym c]))"

fun lexDot :: "mode \<Rightarrow> string \<Rightarrow> token list option" where
  "lexDot Outside [] = Some []"
| "lexDot (InId acc) [] = Some [Ident (rev acc)]"
| "lexDot (InStr acc) [] = None"
| "lexDot Outside (c # cs) =
     (case outsideStep c of (m, ts) \<Rightarrow> map_option ((@) ts) (lexDot m cs))"
| "lexDot (InId acc) (c # cs) =
     (if isIdChar c then lexDot (InId (c # acc)) cs
      else (case outsideStep c of (m, ts) \<Rightarrow> map_option ((@) (Ident (rev acc) # ts)) (lexDot m cs)))"
| "lexDot (InStr acc) (c # cs) =
     (if c = dquote then map_option ((#) (Str (rev acc))) (lexDot Outside cs)
      else if c = backslash then
        (case cs of
           [] \<Rightarrow> None
         | d # ds \<Rightarrow> if d = dquote then lexDot (InStr (dquote # acc)) ds
                     else lexDot (InStr (c # acc)) cs)
      else lexDot (InStr (c # acc)) cs)"

type_synonym statements = "(string \<times> string) list \<times> (string \<times> string) list"

definition addNodeStmt :: "string \<times> string \<Rightarrow> statements \<Rightarrow> statements" where
  "addNodeStmt n st = (n # fst st, snd st)"

definition addEdgeStmt :: "string \<times> string \<Rightarrow> statements \<Rightarrow> statements" where
  "addEdgeStmt e st = (fst st, e # snd st)"

fun readStmts :: "token list \<Rightarrow> statements option" where
  "readStmts (Str a # Sym b # Ident l # Sym e # Str n # Sym c # Sym s # rest) =
     (if b = CHR ''['' \<and> l = ''label'' \<and> e = CHR ''='' \<and> c = CHR '']'' \<and> s = CHR '';''
      then map_option (addNodeStmt (a, n)) (readStmts rest) else None)"
| "readStmts (Str a # Sym m # Sym g # Str b # Sym s # rest) =
     (if m = CHR ''-'' \<and> g = CHR ''>'' \<and> s = CHR '';''
      then map_option (addEdgeStmt (a, b)) (readStmts rest) else None)"
| "readStmts [Sym c] = (if c = CHR ''}'' then Some ([], []) else None)"
| "readStmts _ = None"

definition preamble :: "token list" where
  "preamble =
     [Ident ''digraph'', Ident ''G'', Sym (CHR ''{''),
      Ident ''rankdir'', Sym (CHR ''=''), Ident ''TB'', Sym (CHR '';''),
      Ident ''node'', Sym (CHR ''[''), Ident ''shape'', Sym (CHR ''=''), Ident ''box'', Sym (CHR '',''),
      Ident ''style'', Sym (CHR ''=''), Ident ''rounded'', Sym (CHR '']''), Sym (CHR '';'')]"

definition readDot :: "string \<Rightarrow> statements option" where
  "readDot text =
     (case lexDot Outside text of
        None \<Rightarrow> None
      | Some ts \<Rightarrow>
          if take (length preamble) ts = preamble then readStmts (drop (length preamble) ts)
          else None)"

definition clean :: "string \<Rightarrow> bool" where
  "clean s = (dquote \<notin> set s \<and> backslash \<notin> set s)"

definition nodeTokens :: "FamilyMember \<Rightarrow> token list" where
  "nodeTokens n =
     [Str (ID n), Sym (CHR ''[''), Ident ''label'', Sym (CHR ''=''), Str (Name n),
      Sym (CHR '']''), Sym (CHR '';'')]"

definition edgeTokens :: "Edge \<Rightarrow> token list" where
  "edgeTokens e = [Str (From e), Sym (CHR ''-''), Sym (CHR ''>''), Str (To e), Sym (CHR '';'')]"

subsection \<open>Datasets for the examples\<close>

text \<open>
  A dataset with an unresolvable parent reference (\<open>Nobody\<close>) and an ID used twice.
\<close>

definition orphans :: "FamilyMember list" where
  "orphans =
     [\<lparr>ID = ''1'', Name = ''Ann'', ParentName = ''Nobody''\<rparr>,
      \<lparr>ID = ''2'', Name = ''Bob'', ParentName = ''Ann''\<rparr>,
      \<lparr>ID = ''1'', Name = ''Cid'', ParentName = []\<rparr>]"

text \<open>Two members named Sam; Kim names Sam as parent.\<close>

definition namesakes :: "FamilyMember list" where
  "namesakes =
     [\<lparr>ID = ''1'', Name = ''Sam'', ParentName = []\<rparr>,
      \<lparr>ID = ''2'', Name = ''Sam'', ParentName = []\<rparr>,
      \<lparr>ID = ''3'', Name = ''Kim'', ParentName = ''Sam''\<rparr>]"

text \<open>Sue refers to a parent that is not in the list and nobody refers to Sue.\<close>

definition loners :: "FamilyMember list" where
  "loners =
     [\<lparr>ID = ''1'', Name = ''Tom'', ParentName = []\<rparr>,
      \<lparr>ID = ''2'', Name = ''Sue'', ParentName = ''Nobody''\<rparr>,
      \<lparr>ID = ''3'', Name = ''Uma'', ParentName = ''Tom''\<rparr>]"

text \<open>
  Names that renderPNG writes as they are: a nickname in double quotes, a name that carries
  a node statement of its own (and the two members that this statement makes of it), and a
  name that ends with a backslash.
\<close>

definition nickname :: "FamilyMember list" where
  "nickname = [\<lparr>ID = ''1'', Name = ''Ann '' @ [dquote] @ ''Annie'' @ [dquote] @ '' Lee'', ParentName = []\<rparr>]"

definition smuggled :: "FamilyMember list" where
  "smuggled =
     [\<lparr>ID = ''a'',
       Name = ''x'' @ [dquote] @ ''];'' @ [newline] @ ''  '' @ [dquote] @ ''b'' @ [dquote] @
              '' [label='' @ [dquote] @ ''y'',
       ParentName = []\<rparr>]"

definition plain :: "FamilyMember list" where
  "plain = [\<lparr>ID = ''a'', Name = ''x'', ParentName = []\<rparr>, \<lparr>ID = ''b'', Name = ''y'', ParentName = []\<rparr>]"

definition trailing :: "FamilyMember list" where
  "trailing = [\<lparr>ID = ''1'', Name = ''a'' @ [backslash], ParentName = []\<rparr>]"

section \<open>Properties of buildFamilyGraph\<close>

subsection \<open>The name-to-ID map\<close>

lemma find_append_last:
  "find P (xs @ [x]) = (case find P xs of Some y \<Rightarrow> Some y | None \<Rightarrow> if P x then Some x else None)"
  by (induction xs) auto

lemma addNodes_nameToID:
  "snd (addNodes ms (g, n)) k =
     (case find (\<lambda>m. Name m = k) (rev ms) of Some m \<Rightarrow> Some (ID m) | None \<Rightarrow> n k)"
proof (induction ms arbitrary: g n)
  case Nil
  show ?case by simp
next
  case (Cons m ms)
  show ?case
    by (simp add: Cons.IH find_append_last split: option.splits)
qed

lemma nameToID_of_find:
  "nameToID_of ms k = map_option ID (find (\<lambda>m. Name m = k) (rev ms))"
  by (simp add: nameToID_of_def addNodes_nameToID split: option.splits)

lemma find_SomeD: "find P xs = Some x \<Longrightarrow> x \<in> set xs \<and> P x"
  by (induction xs) (auto split: if_splits)

lemma nameToID_of_SomeD:
  "nameToID_of ms k = Some p \<Longrightarrow> \<exists>m \<in> set ms. Name m = k \<and> ID m = p"
  by (auto simp: nameToID_of_find dest!: find_SomeD)

lemma nameToID_of_None:
  "nameToID_of ms k = None \<longleftrightarrow> k \<notin> Name ` set ms"
  by (auto simp: nameToID_of_find find_None_iff)

lemma AddVertex_keys:
  "map fst (vertices (ignoringError g (AddVertex g m))) =
     (if hasVertex g (ID m) then map fst (vertices g) else map fst (vertices g) @ [ID m])"
  by (simp add: AddVertex_def ignoringError_def)

lemma AddVertex_edges [simp]:
  "edges (ignoringError g (AddVertex g m)) = edges g"
  by (simp add: AddVertex_def ignoringError_def)

lemma addNodes_keys_set:
  "set (map fst (vertices (fst (addNodes ms (g, n))))) = set (map fst (vertices g)) \<union> ID ` set ms"
proof (induction ms arbitrary: g n)
  case Nil
  show ?case by simp
next
  case (Cons m ms)
  show ?case
    by (simp add: Cons.IH AddVertex_keys hasVertex_def del: set_map) (auto simp: hasVertex_def)
qed

lemma addNodes_keys_distinct:
  "distinct (map fst (vertices g)) \<Longrightarrow> distinct (map fst (vertices (fst (addNodes ms (g, n)))))"
proof (induction ms arbitrary: g n)
  case Nil
  then show ?case by simp
next
  case (Cons m ms)
  have "distinct (map fst (vertices (ignoringError g (AddVertex g m))))"
    using Cons.prems by (simp add: AddVertex_keys hasVertex_def)
  then show ?case by (simp add: Cons.IH)
qed

lemma addNodes_edges [simp]:
  "edges (fst (addNodes ms (g, n))) = edges g"
  by (induction ms arbitrary: g n) simp_all

lemma AddVertex_stored:
  "\<forall>(k, m) \<in> set (vertices g). P k m \<Longrightarrow> P (ID m) m \<Longrightarrow>
   \<forall>(k, m) \<in> set (vertices (ignoringError g (AddVertex g m))). P k m"
  by (auto simp: AddVertex_def ignoringError_def)

lemma addRelation_vertices [simp]:
  "vertices (fst (addRelation n m st)) = vertices (fst st)"
  by (simp add: addRelation_def AddEdge_def ignoringError_def split: option.splits)

lemma addEdges_vertices [simp]:
  "vertices (fst (addEdges n ms st)) = vertices (fst st)"
  by (induction ms arbitrary: st) simp_all

lemma addRelation_Edges:
  "snd (addRelation n m st) = snd st @ (if resolvable n m then [relationOf n m] else [])"
  by (auto simp: addRelation_def resolvable_def relationOf_def split: option.splits)

lemma addEdges_Edges:
  "snd (addEdges n ms st) = snd st @ map (relationOf n) (filter (resolvable n) ms)"
  by (induction ms arbitrary: st) (simp_all add: addRelation_Edges)

lemma addRelation_edges_mono:
  "set (edges (fst st)) \<subseteq> set (edges (fst (addRelation n m st)))"
  by (auto simp: addRelation_def AddEdge_def ignoringError_def split: option.splits)

lemma addEdges_edges_mono:
  "set (edges (fst st)) \<subseteq> set (edges (fst (addEdges n ms st)))"
proof (induction ms arbitrary: st)
  case Nil
  show ?case by simp
next
  case (Cons m ms)
  show ?case using addRelation_edges_mono [of st n m] Cons.IH [of "addRelation n m st"]
    by auto
qed

lemma addRelation_edges_new:
  "resolvable n m \<Longrightarrow> hasVertex (fst st) (the (n (ParentName m))) \<Longrightarrow> hasVertex (fst st) (ID m) \<Longrightarrow>
   (the (n (ParentName m)), ID m) \<in> set (edges (fst (addRelation n m st)))"
  by (auto simp: addRelation_def AddEdge_def ignoringError_def resolvable_def split: option.splits)

lemma addEdges_edges_new:
  "m \<in> set ms \<Longrightarrow> resolvable n m \<Longrightarrow> hasVertex (fst st) (the (n (ParentName m))) \<Longrightarrow>
   hasVertex (fst st) (ID m) \<Longrightarrow>
   (the (n (ParentName m)), ID m) \<in> set (edges (fst (addEdges n ms st)))"
proof (induction ms arbitrary: st)
  case Nil
  then show ?case by simp
next
  case (Cons a ms)
  show ?case
  proof (cases "m = a")
    case True
    have "(the (n (ParentName m)), ID m) \<in> set (edges (fst (addRelation n a st)))"
      using Cons.prems True addRelation_edges_new by blast
    then show ?thesis
      using addEdges_edges_mono [of "addRelation n a st" n ms] by auto
  next
    case False
    then have "m \<in> set ms" using Cons.prems by simp
    moreover have "hasVertex (fst (addRelation n a st)) (the (n (ParentName m)))"
      "hasVertex (fst (addRelation n a st)) (ID m)"
      using Cons.prems by (simp_all add: hasVertex_def)
    ultimately show ?thesis using Cons.IH Cons.prems(2) by simp
  qed
qed

lemma addRelation_edges_sub:
  "set (edges (fst (addRelation n m st))) \<subseteq>
     set (edges (fst st)) \<union> (if resolvable n m then {(the (n (ParentName m)), ID m)} else {})"
  by (auto simp: addRelation_def AddEdge_def ignoringError_def resolvable_def split: option.splits if_splits)

lemma addEdges_edges_sub:
  "set (edges (fst (addEdges n ms st))) \<subseteq>
     set (edges (fst st)) \<union> {(the (n (ParentName m)), ID m) | m. m \<in> set ms \<and> resolvable n m}"
proof (induction ms arbitrary: st)
  case Nil
  show ?case by simp
next
  case (Cons a ms)
  show ?case using addRelation_edges_sub [of n a st] Cons.IH [of "addRelation n a st"]
    by (auto split: if_splits)
qed

lemma buildFamilyGraph_unfold:
  "buildFamilyGraph ms =
     (\<lparr>Nodes = ms, Edges = snd (addEdges (nameToID_of ms) ms (fst (addNodes ms (New, Map.empty)), []))\<rparr>,
      fst (addEdges (nameToID_of ms) ms (fst (addNodes ms (New, Map.empty)), [])))"
  by (simp add: buildFamilyGraph_def nameToID_of_def Let_def split: prod.splits)

lemma buildFamilyGraph_Edges:
  "Edges (fst (buildFamilyGraph ms)) =
     map (relationOf (nameToID_of ms)) (filter (resolvable (nameToID_of ms)) ms)"
  by (simp add: buildFamilyGraph_unfold addEdges_Edges)

lemma buildFamilyGraph_Nodes [simp]: "Nodes (fst (buildFamilyGraph ms)) = ms"
  by (simp add: buildFamilyGraph_unfold)

lemma buildFamilyGraph_vertices:
  "vertices (snd (buildFamilyGraph ms)) = vertices (fst (addNodes ms (New, Map.empty)))"
  by (simp add: buildFamilyGraph_unfold)

lemma buildFamilyGraph_keys:
  "set (map fst (vertices (snd (buildFamilyGraph ms)))) = ID ` set ms"
  by (simp add: buildFamilyGraph_vertices addNodes_keys_set New_def del: set_map)

lemma buildFamilyGraph_keys_distinct:
  "distinct (map fst (vertices (snd (buildFamilyGraph ms))))"
  by (simp add: buildFamilyGraph_vertices addNodes_keys_distinct New_def)

lemma buildFamilyGraph_hasVertex:
  "hasVertex (snd (buildFamilyGraph ms)) k \<longleftrightarrow> k \<in> ID ` set ms"
  using buildFamilyGraph_keys [of ms] by (simp add: hasVertex_def del: set_map)

lemma buildFamilyGraph_edges:
  "set (edges (snd (buildFamilyGraph ms))) =
     {(the (nameToID_of ms (ParentName m)), ID m) | m. m \<in> set ms \<and> resolvable (nameToID_of ms) m}"
proof
  show "set (edges (snd (buildFamilyGraph ms))) \<subseteq>
     {(the (nameToID_of ms (ParentName m)), ID m) | m. m \<in> set ms \<and> resolvable (nameToID_of ms) m}"
    using addEdges_edges_sub [of "nameToID_of ms" ms "(fst (addNodes ms (New, Map.empty)), [])"]
    by (simp add: buildFamilyGraph_unfold New_def)
next
  let ?n = "nameToID_of ms" and ?g = "fst (addNodes ms (New, Map.empty))"
  have keys: "hasVertex ?g k \<longleftrightarrow> k \<in> ID ` set ms" for k
    using addNodes_keys_set [of ms New Map.empty] by (simp add: hasVertex_def New_def del: set_map)
  show "{(the (?n (ParentName m)), ID m) | m. m \<in> set ms \<and> resolvable ?n m}
          \<subseteq> set (edges (snd (buildFamilyGraph ms)))"
  proof clarify
    fix m assume m: "m \<in> set ms" "resolvable ?n m"
    then obtain p where p: "?n (ParentName m) = Some p" by (auto simp: resolvable_def)
    then have "p \<in> ID ` set ms" using nameToID_of_SomeD by blast
    then have "hasVertex (fst (?g, [])) (the (?n (ParentName m)))" using p keys by simp
    moreover have "hasVertex (fst (?g, [])) (ID m)" using m keys by simp
    ultimately show "(the (?n (ParentName m)), ID m) \<in> set (edges (snd (buildFamilyGraph ms)))"
      using addEdges_edges_new [OF m] by (simp add: buildFamilyGraph_unfold)
  qed
qed

lemma addNodes_stored:
  "\<forall>(k, m) \<in> set (vertices g). ID m = k \<and> (m \<in> set ms0) \<Longrightarrow> set ms \<subseteq> set ms0 \<Longrightarrow>
   \<forall>(k, m) \<in> set (vertices (fst (addNodes ms (g, n)))). ID m = k \<and> m \<in> set ms0"
proof (induction ms arbitrary: g n)
  case Nil
  then show ?case by simp
next
  case (Cons a ms)
  have "\<forall>(k, m) \<in> set (vertices (ignoringError g (AddVertex g a))). ID m = k \<and> m \<in> set ms0"
    using Cons.prems by (auto simp: AddVertex_def ignoringError_def)
  then show ?case using Cons.IH Cons.prems(2) by simp
qed

text \<open>
  Claim C1. After buildFamilyGraph the graph holds exactly one node per distinct ID of the
  input: the stored hashes are pairwise distinct, they are exactly the IDs of the input
  members, every member's ID is a node, and each node is an input member stored under its
  own ID. Nothing here depends on the parent references.
\<close>

theorem buildFamilyGraph_nodes:
  "distinct (map fst (vertices (snd (buildFamilyGraph members)))) \<and>
   set (map fst (vertices (snd (buildFamilyGraph members)))) = ID ` set members \<and>
   length (vertices (snd (buildFamilyGraph members))) = card (ID ` set members) \<and>
   (\<forall>m \<in> set members. hasVertex (snd (buildFamilyGraph members)) (ID m)) \<and>
   (\<forall>(k, m) \<in> set (vertices (snd (buildFamilyGraph members))). ID m = k \<and> m \<in> set members)"
proof -
  let ?g = "snd (buildFamilyGraph members)"
  have d: "distinct (map fst (vertices ?g))" by (rule buildFamilyGraph_keys_distinct)
  have k: "set (map fst (vertices ?g)) = ID ` set members" by (rule buildFamilyGraph_keys)
  have "length (vertices ?g) = length (map fst (vertices ?g))" by simp
  also have "\<dots> = card (set (map fst (vertices ?g)))" using d by (simp only: distinct_card)
  finally have l: "length (vertices ?g) = card (ID ` set members)" using k by simp
  have h: "\<forall>m \<in> set members. hasVertex ?g (ID m)" by (simp add: buildFamilyGraph_hasVertex)
  have s: "\<forall>(k, m) \<in> set (vertices ?g). ID m = k \<and> m \<in> set members"
    using addNodes_stored [of New members members Map.empty]
    by (simp add: buildFamilyGraph_vertices New_def)
  show ?thesis using d k l h s by blast
qed

theorem buildFamilyGraph_nodes_witness:
  "map fst (vertices (snd (buildFamilyGraph orphans))) = [''1'', ''2''] \<and>
   length (vertices (snd (buildFamilyGraph orphans))) = card (ID ` set orphans) \<and>
   hasVertex (snd (buildFamilyGraph orphans)) ''1''"
proof -
  have "map fst (vertices (snd (buildFamilyGraph orphans))) = [''1'', ''2'']"
    by code_simp
  moreover have "\<lparr>ID = ''1'', Name = ''Ann'', ParentName = ''Nobody''\<rparr> \<in> set orphans"
    by (simp add: orphans_def)
  ultimately show ?thesis using buildFamilyGraph_nodes [of orphans] by fastforce
qed

text \<open>
  Claim C10. Every edge of the returned edge list joins two IDs of the input: \<open>To\<close> is
  the ID of a member that carries a non-empty parent reference, and \<open>From\<close> is the ID
  that \<open>nameToID\<close> records for that reference, which is the ID of a member of that name.
\<close>

theorem buildFamilyGraph_edge_endpoints:
  "e \<in> set (Edges (fst (buildFamilyGraph members))) \<Longrightarrow>
   \<exists>child \<in> set members. \<exists>parent \<in> set members.
     To e = ID child \<and> ParentName child \<noteq> [] \<and> Name parent = ParentName child \<and>
     From e = ID parent \<and> nameToID_of members (ParentName child) = Some (From e)"
proof -
  assume "e \<in> set (Edges (fst (buildFamilyGraph members)))"
  then obtain c where c: "c \<in> set members" "resolvable (nameToID_of members) c"
      "e = relationOf (nameToID_of members) c"
    by (auto simp: buildFamilyGraph_Edges)
  then obtain p where p: "nameToID_of members (ParentName c) = Some p"
    by (auto simp: resolvable_def)
  then obtain parent where "parent \<in> set members" "Name parent = ParentName c" "ID parent = p"
    using nameToID_of_SomeD by blast
  then show ?thesis using c p by (auto simp: relationOf_def resolvable_def)
qed

theorem buildFamilyGraph_edge_endpoints_witness:
  "\<lparr>From = ''2'', To = ''5''\<rparr> \<in> set (Edges (fst (buildFamilyGraph familyData))) \<and>
   (\<exists>child \<in> set familyData. \<exists>parent \<in> set familyData.
      ''5'' = ID child \<and> ParentName child \<noteq> [] \<and> Name parent = ParentName child \<and>
      ''2'' = ID parent \<and> nameToID_of familyData (ParentName child) = Some ''2'')"
proof -
  have h: "\<lparr>From = ''2'', To = ''5''\<rparr> \<in> set (Edges (fst (buildFamilyGraph familyData)))"
    by code_simp
  show ?thesis using h buildFamilyGraph_edge_endpoints [OF h] by simp
qed

subsection \<open>Edges\<close>

lemma buildFamilyGraph_edges_Edges:
  "set (edges (snd (buildFamilyGraph ms))) = (\<lambda>e. (From e, To e)) ` set (Edges (fst (buildFamilyGraph ms)))"
  by (auto simp: buildFamilyGraph_edges buildFamilyGraph_Edges relationOf_def image_iff)

text \<open>
  Claim C2. A member with a non-empty parent name that \<open>nameToID\<close> maps to \<open>p\<close>
  gets the edge from \<open>p\<close> to its own ID, in the graph and in the returned edge list. For
  a member whose parent name is not in the map the loop body changes nothing: no edge is
  added, and the function has no error result. The edge list holds one edge for each member
  that passes both tests, in input order, and nothing else; the graph has the same edges.
\<close>

theorem buildFamilyGraph_parent_edges:
  "(\<forall>m \<in> set members. \<forall>p. ParentName m \<noteq> [] \<and> nameToID_of members (ParentName m) = Some p \<longrightarrow>
      (p, ID m) \<in> set (edges (snd (buildFamilyGraph members))) \<and>
      \<lparr>From = p, To = ID m\<rparr> \<in> set (Edges (fst (buildFamilyGraph members)))) \<and>
   (\<forall>m st. nameToID_of members (ParentName m) = None \<longrightarrow>
      addRelation (nameToID_of members) m st = st) \<and>
   Edges (fst (buildFamilyGraph members)) =
     map (\<lambda>m. \<lparr>From = the (nameToID_of members (ParentName m)), To = ID m\<rparr>)
       (filter (\<lambda>m. ParentName m \<noteq> [] \<and> nameToID_of members (ParentName m) \<noteq> None) members) \<and>
   set (edges (snd (buildFamilyGraph members))) =
     (\<lambda>e. (From e, To e)) ` set (Edges (fst (buildFamilyGraph members)))"
proof -
  let ?n = "nameToID_of members"
  have a: "(p, ID m) \<in> set (edges (snd (buildFamilyGraph members))) \<and>
      \<lparr>From = p, To = ID m\<rparr> \<in> set (Edges (fst (buildFamilyGraph members)))"
    if "m \<in> set members" "ParentName m \<noteq> []" "?n (ParentName m) = Some p" for m p
  proof -
    have r: "resolvable ?n m" using that by (simp add: resolvable_def)
    have "(the (?n (ParentName m)), ID m) \<in> set (edges (snd (buildFamilyGraph members)))"
      using that(1) r unfolding buildFamilyGraph_edges by blast
    moreover have "relationOf ?n m \<in> set (Edges (fst (buildFamilyGraph members)))"
      using that(1) r by (simp add: buildFamilyGraph_Edges)
    ultimately show ?thesis using that(3) by (simp add: relationOf_def)
  qed
  have b: "addRelation ?n m st = st" if "?n (ParentName m) = None" for m st
    using that by (simp add: addRelation_def)
  have c: "Edges (fst (buildFamilyGraph members)) =
     map (\<lambda>m. \<lparr>From = the (?n (ParentName m)), To = ID m\<rparr>)
       (filter (\<lambda>m. ParentName m \<noteq> [] \<and> ?n (ParentName m) \<noteq> None) members)"
  proof -
    have "resolvable ?n = (\<lambda>m. ParentName m \<noteq> [] \<and> ?n (ParentName m) \<noteq> None)"
      by (simp add: resolvable_def fun_eq_iff)
    moreover have "relationOf ?n = (\<lambda>m. \<lparr>From = the (?n (ParentName m)), To = ID m\<rparr>)"
      by (simp add: relationOf_def fun_eq_iff)
    ultimately show ?thesis by (simp only: buildFamilyGraph_Edges)
  qed
  show ?thesis using a b c buildFamilyGraph_edges_Edges [of members] by blast
qed

theorem buildFamilyGraph_parent_edges_witness:
  "nameToID_of orphans ''Nobody'' = None \<and>
   nameToID_of orphans ''Ann'' = Some ''1'' \<and>
   Edges (fst (buildFamilyGraph orphans)) = [\<lparr>From = ''1'', To = ''2''\<rparr>] \<and>
   (''1'', ''2'') \<in> set (edges (snd (buildFamilyGraph orphans))) \<and>
   addRelation (nameToID_of orphans) \<lparr>ID = ''1'', Name = ''Ann'', ParentName = ''Nobody''\<rparr> (New, [])
     = (New, [])"
proof -
  have n: "nameToID_of orphans ''Nobody'' = None" by code_simp
  have a: "nameToID_of orphans ''Ann'' = Some ''1''" by code_simp
  have e: "Edges (fst (buildFamilyGraph orphans)) = [\<lparr>From = ''1'', To = ''2''\<rparr>]" by code_simp
  have m: "\<lparr>ID = ''2'', Name = ''Bob'', ParentName = ''Ann''\<rparr> \<in> set orphans"
    by (simp add: orphans_def)
  show ?thesis using n a e m buildFamilyGraph_parent_edges [of orphans] by fastforce
qed

subsection \<open>Names used twice\<close>

lemma find_rev_last:
  "j < length xs \<Longrightarrow> P (xs ! j) \<Longrightarrow> (\<forall>k. j < k \<and> k < length xs \<longrightarrow> \<not> P (xs ! k)) \<Longrightarrow>
   find P (rev xs) = Some (xs ! j)"
proof (induction xs rule: rev_induct)
  case Nil
  then show ?case by simp
next
  case (snoc x xs)
  show ?case
  proof (cases "j = length xs")
    case True
    then show ?thesis using snoc.prems(2) by simp
  next
    case False
    then have j: "j < length xs" using snoc.prems(1) by simp
    have "j < length xs \<and> length xs < length (xs @ [x])" using j by simp
    then have "\<not> P ((xs @ [x]) ! length xs)" using snoc.prems(3) by blast
    then have nx: "\<not> P x" by simp
    have "P (xs ! j)" using snoc.prems(2) j by (simp add: nth_append)
    moreover have "\<forall>k. j < k \<and> k < length xs \<longrightarrow> \<not> P (xs ! k)"
    proof (intro allI impI)
      fix k assume k: "j < k \<and> k < length xs"
      then have "\<not> P ((xs @ [x]) ! k)" using snoc.prems(3) by simp
      then show "\<not> P (xs ! k)" using k by (simp add: nth_append)
    qed
    ultimately have "find P (rev xs) = Some (xs ! j)" using snoc.IH j by blast
    then show ?thesis using nx j by (simp add: nth_append)
  qed
qed

text \<open>
  Claim C8. When two members have the same name, \<open>nameToID\<close> holds the ID of the later
  one (the last member of that name), and every parent reference to that name is resolved
  to that ID: the member's edge starts there.
\<close>

theorem nameToID_later_overwrites:
  assumes "i < j" and "j < length members"
    and "Name (members ! i) = Name (members ! j)"
    and "\<forall>k. j < k \<and> k < length members \<longrightarrow> Name (members ! k) \<noteq> Name (members ! j)"
  shows "nameToID_of members (Name (members ! j)) = Some (ID (members ! j)) \<and>
    (\<forall>child \<in> set members. ParentName child = Name (members ! j) \<and> ParentName child \<noteq> [] \<longrightarrow>
       \<lparr>From = ID (members ! j), To = ID child\<rparr> \<in> set (Edges (fst (buildFamilyGraph members))) \<and>
       (\<forall>st. snd (addRelation (nameToID_of members) child st) =
          snd st @ [\<lparr>From = ID (members ! j), To = ID child\<rparr>]))"
proof -
  let ?n = "nameToID_of members"
  have "find (\<lambda>m. Name m = Name (members ! j)) (rev members) = Some (members ! j)"
    using assms(2,4) by (intro find_rev_last) auto
  then have n: "?n (Name (members ! j)) = Some (ID (members ! j))"
    by (simp add: nameToID_of_find)
  have "\<lparr>From = ID (members ! j), To = ID c\<rparr> \<in> set (Edges (fst (buildFamilyGraph members))) \<and>
       (\<forall>st. snd (addRelation ?n c st) = snd st @ [\<lparr>From = ID (members ! j), To = ID c\<rparr>])"
    if c: "c \<in> set members" "ParentName c = Name (members ! j)" "ParentName c \<noteq> []" for c
  proof -
    have r: "resolvable ?n c" using c n by (simp add: resolvable_def)
    then have "relationOf ?n c \<in> set (Edges (fst (buildFamilyGraph members)))"
      using c(1) by (simp add: buildFamilyGraph_Edges)
    moreover have "relationOf ?n c = \<lparr>From = ID (members ! j), To = ID c\<rparr>"
      using c n by (simp add: relationOf_def)
    ultimately show ?thesis using r by (simp add: addRelation_Edges)
  qed
  then show ?thesis using n by blast
qed

theorem nameToID_later_overwrites_witness:
  "Name (namesakes ! 0) = Name (namesakes ! 1) \<and>
   nameToID_of namesakes ''Sam'' = Some ''2'' \<and>
   Edges (fst (buildFamilyGraph namesakes)) = [\<lparr>From = ''2'', To = ''3''\<rparr>]"
proof -
  have h1: "(0::nat) < 1" and h2: "1 < length namesakes"
    and h3: "Name (namesakes ! 0) = Name (namesakes ! 1)"
    by (simp_all add: namesakes_def)
  have h4: "\<forall>k. 1 < k \<and> k < length namesakes \<longrightarrow> Name (namesakes ! k) \<noteq> Name (namesakes ! 1)"
  proof (intro allI impI)
    fix k assume "1 < k \<and> k < length namesakes"
    then have "k = 2" by (simp add: namesakes_def)
    then show "Name (namesakes ! k) \<noteq> Name (namesakes ! 1)" by (simp add: namesakes_def)
  qed
  have e: "Edges (fst (buildFamilyGraph namesakes)) = [\<lparr>From = ''2'', To = ''3''\<rparr>]"
    by code_simp
  have "nameToID_of namesakes (Name (namesakes ! 1)) = Some (ID (namesakes ! 1))"
    using nameToID_later_overwrites [OF h1 h2 h3 h4] by blast
  then show ?thesis using h3 e by (simp add: namesakes_def)
qed

section \<open>Properties of renderPNG and of the exit status\<close>

lemma renderPNG_snd:
  "snd (renderPNG run graphOut outPath) =
     map_option (Errorf renderFailed) (run ''dot'' [''-Tpng'', ''-o'', outPath] (dotDescription graphOut))"
  by (simp add: renderPNG_def Let_def split: option.splits)

lemma program_exitStatus:
  "exitStatus (program run rngDFS rngBFS members dfsStart bfsStart) =
     (if snd (renderPNG run (fst (buildFamilyGraph members)) ''family_tree.png'') = None then 0 else 1)"
  by (simp add: program_def split: prod.splits option.splits)

lemma program_stderr:
  "stderr (program run rngDFS rngBFS members dfsStart bfsStart) =
     (case snd (renderPNG run (fst (buildFamilyGraph members)) ''family_tree.png'') of
        None \<Rightarrow> [] | Some err \<Rightarrow> [err])"
  by (simp add: program_def split: prod.splits option.splits)

text \<open>
  Claim C7. renderPNG returns an error exactly when \<open>Run\<close> of the \<open>dot\<close> command returns
  one (the command is not installed, or it exits with a failure status), and the error
  returned wraps that cause; otherwise it returns nil. The process ends with status 0 when
  the render step succeeds and with status 1 when it fails.
\<close>

theorem renderPNG_error_iff_run_fails:
  "(snd (renderPNG run graphOut outPath) = None \<longleftrightarrow>
      run ''dot'' [''-Tpng'', ''-o'', outPath] (dotDescription graphOut) = None) \<and>
   (\<forall>cause. run ''dot'' [''-Tpng'', ''-o'', outPath] (dotDescription graphOut) = Some cause \<longrightarrow>
      snd (renderPNG run graphOut outPath) = Some (Errorf renderFailed cause)) \<and>
   exitStatus (program run rngDFS rngBFS members dfsStart bfsStart) =
     (if run ''dot'' [''-Tpng'', ''-o'', ''family_tree.png'']
           (dotDescription (fst (buildFamilyGraph members))) = None
      then 0 else 1)"
  by (simp add: renderPNG_snd program_exitStatus)

theorem renderPNG_error_iff_run_fails_witness:
  "snd (renderPNG (\<lambda>name args stdin. Some ExecNotFound) \<lparr>Nodes = [], Edges = []\<rparr> ''out.png'')
     = Some (Errorf renderFailed ExecNotFound) \<and>
   exitStatus (main (\<lambda>name args stdin. Some (ExitError 1)) (\<lambda>ks. ks) rev) = 1 \<and>
   snd (renderPNG (\<lambda>name args stdin. None) \<lparr>Nodes = [], Edges = []\<rparr> ''out.png'') = None \<and>
   exitStatus (main (\<lambda>name args stdin. None) (\<lambda>ks. ks) rev) = 0"
  using renderPNG_error_iff_run_fails
      [of "\<lambda>name args stdin. Some ExecNotFound" "\<lparr>Nodes = [], Edges = []\<rparr>" "''out.png''"
          "\<lambda>ks. ks" rev familyData "''2''" "''1''"]
    renderPNG_error_iff_run_fails
      [of "\<lambda>name args stdin. Some (ExitError 1)" "\<lparr>Nodes = [], Edges = []\<rparr>" "''out.png''"
          "\<lambda>ks. ks" rev familyData "''2''" "''1''"]
    renderPNG_error_iff_run_fails
      [of "\<lambda>name args stdin. None" "\<lparr>Nodes = [], Edges = []\<rparr>" "''out.png''"
          "\<lambda>ks. ks" rev familyData "''2''" "''1''"]
  by (simp add: main_def)

section \<open>Roots and leaves\<close>

lemma map_of_keyed:
  "map_of (map (\<lambda>(k, v). (k, f k)) xs) k = (if k \<in> fst ` set xs then Some (f k) else None)"
  by (induction xs) auto

lemma index_PredecessorMap:
  "index (PredecessorMap g) k =
     (if hasVertex g k then map fst (filter (\<lambda>e. snd e = k) (edges g)) else [])"
  by (simp add: index_def PredecessorMap_def map_of_keyed hasVertex_def)

lemma index_AdjacencyMap:
  "index (AdjacencyMap g) k =
     (if hasVertex g k then map snd (filter (\<lambda>e. fst e = k) (edges g)) else [])"
  by (simp add: index_def AdjacencyMap_def map_of_keyed hasVertex_def)

lemma no_predecessor_iff:
  "length (map fst (filter (\<lambda>e. snd e = k) es)) = 0 \<longleftrightarrow> {p. (p, k) \<in> set es} = {}"
  by (auto simp: filter_empty_conv)

lemma no_successor_iff:
  "length (map snd (filter (\<lambda>e. fst e = k) es)) = 0 \<longleftrightarrow> {c. (k, c) \<in> set es} = {}"
  by (auto simp: filter_empty_conv)

text \<open>
  Claim C5. On the graph that buildFamilyGraph returns, the roots query reports exactly the
  members without a predecessor and the leaves query exactly the members without a
  successor, both in the order of the input list; a member whose ID is on no edge is
  reported by both.
\<close>

theorem roots_and_leaves:
  "findRoots (snd (buildFamilyGraph members)) members =
     filter (\<lambda>m. {p. (p, ID m) \<in> set (edges (snd (buildFamilyGraph members)))} = {}) members \<and>
   findLeaves (snd (buildFamilyGraph members)) members =
     filter (\<lambda>m. {c. (ID m, c) \<in> set (edges (snd (buildFamilyGraph members)))} = {}) members \<and>
   (\<forall>m \<in> set members.
      (\<forall>e \<in> set (edges (snd (buildFamilyGraph members))). fst e \<noteq> ID m \<and> snd e \<noteq> ID m) \<longrightarrow>
      m \<in> set (findRoots (snd (buildFamilyGraph members)) members) \<and>
      m \<in> set (findLeaves (snd (buildFamilyGraph members)) members))"
proof -
  let ?g = "snd (buildFamilyGraph members)"
  have r: "findRoots ?g members = filter (\<lambda>m. {p. (p, ID m) \<in> set (edges ?g)} = {}) members"
    unfolding findRoots_def
    by (rule filter_cong)
       (simp_all add: index_PredecessorMap buildFamilyGraph_hasVertex no_predecessor_iff
          del: length_map length_0_conv)
  have l: "findLeaves ?g members = filter (\<lambda>m. {c. (ID m, c) \<in> set (edges ?g)} = {}) members"
    unfolding findLeaves_def
    by (rule filter_cong)
       (simp_all add: index_AdjacencyMap buildFamilyGraph_hasVertex no_successor_iff
          del: length_map length_0_conv)
  have i: "m \<in> set (findRoots ?g members) \<and> m \<in> set (findLeaves ?g members)"
    if "m \<in> set members" "\<forall>e \<in> set (edges ?g). fst e \<noteq> ID m \<and> snd e \<noteq> ID m" for m
    using that unfolding r l by fastforce
  show ?thesis using r l i by blast
qed

theorem roots_and_leaves_witness:
  "map ID (findRoots (snd (buildFamilyGraph loners)) loners) = [''1'', ''2''] \<and>
   map ID (findLeaves (snd (buildFamilyGraph loners)) loners) = [''2'', ''3''] \<and>
   edges (snd (buildFamilyGraph loners)) = [(''1'', ''3'')] \<and>
   \<lparr>ID = ''2'', Name = ''Sue'', ParentName = ''Nobody''\<rparr>
     \<in> set (findRoots (snd (buildFamilyGraph loners)) loners) \<and>
   \<lparr>ID = ''2'', Name = ''Sue'', ParentName = ''Nobody''\<rparr>
     \<in> set (findLeaves (snd (buildFamilyGraph loners)) loners)"
proof -
  have e: "edges (snd (buildFamilyGraph loners)) = [(''1'', ''3'')]" by code_simp
  have m: "\<lparr>ID = ''2'', Name = ''Sue'', ParentName = ''Nobody''\<rparr> \<in> set loners"
    by (simp add: loners_def)
  have f: "filter (\<lambda>m. {p. (p, ID m) \<in> set [(''1'', ''3'')]} = {}) loners
             = [loners ! 0, loners ! 1]"
    "filter (\<lambda>m. {c. (ID m, c) \<in> set [(''1'', ''3'')]} = {}) loners
             = [loners ! 1, loners ! 2]"
    by (simp_all add: loners_def)
  have n: "map ID [loners ! 0, loners ! 1] = [''1'', ''2'']"
    "map ID [loners ! 1, loners ! 2] = [''2'', ''3'']"
    by (simp_all add: loners_def)
  show ?thesis using roots_and_leaves [of loners] e m f n by fastforce
qed

section \<open>A start ID that is not in the graph\<close>

lemma map_of_ranged: "map_of (ranged rng m) k = map_option rng (map_of m k)"
  by (induction m) (auto simp: ranged_def)

lemma map_of_AdjacencyMap:
  "map_of (AdjacencyMap g) k =
     (if hasVertex g k then Some (map snd (filter (\<lambda>e. fst e = k) (edges g))) else None)"
  by (simp add: AdjacencyMap_def map_of_keyed hasVertex_def)

lemma DFS_missing_start:
  "\<not> hasVertex g start \<Longrightarrow> DFS rng g start visit = Inl (NodeNotFound start)"
  by (simp add: DFS_def map_of_ranged map_of_AdjacencyMap)

lemma BFS_missing_start:
  "\<not> hasVertex g start \<Longrightarrow> BFS rng g start visit = Inl (NodeNotFound start)"
  by (simp add: BFS_def map_of_ranged map_of_AdjacencyMap)

text \<open>
  Claim C6 says that a traversal from a start ID outside the graph fails with an error that
  reaches the caller. The error exists, but main.go assigns the result of \<open>graph.DFS\<close> and
  of \<open>graph.BFS\<close> to the blank identifier (lines 128 and 137). With the start ID 7 on the
  dataset of \<open>main\<close> the traversals return the error, yet the program prints no line for
  them, writes nothing to standard error and ends with status 0.
\<close>

theorem missing_start_not_surfaced_counterexample:
  "\<not> hasVertex (snd (buildFamilyGraph familyData)) ''7'' \<and>
   DFS (\<lambda>ks. ks) (snd (buildFamilyGraph familyData)) ''7'' (\<lambda>v. False) = Inl (NodeNotFound ''7'') \<and>
   BFS (\<lambda>ks. ks) (snd (buildFamilyGraph familyData)) ''7'' (\<lambda>v. False) = Inl (NodeNotFound ''7'') \<and>
   descendantTrace (\<lambda>ks. ks) (snd (buildFamilyGraph familyData)) ''7'' = [] \<and>
   generationSweep (\<lambda>ks. ks) (snd (buildFamilyGraph familyData)) ''7'' = [] \<and>
   stderr (program (\<lambda>name args stdin. None) (\<lambda>ks. ks) (\<lambda>ks. ks) familyData ''7'' ''7'') = [] \<and>
   exitStatus (program (\<lambda>name args stdin. None) (\<lambda>ks. ks) (\<lambda>ks. ks) familyData ''7'' ''7'') = 0"
proof -
  have h: "\<not> hasVertex (snd (buildFamilyGraph familyData)) ''7''"
    by (simp add: buildFamilyGraph_hasVertex familyData_def)
  show ?thesis
    using h
    by (simp add: DFS_missing_start BFS_missing_start descendantTrace_def generationSweep_def
        program_stderr program_exitStatus renderPNG_snd)
qed

text \<open>
  Claim C6 as amended: for a start ID that is not a node of the built graph,
  \<open>graph.DFS\<close> and \<open>graph.BFS\<close> visit nothing and return an error that names the
  start ID; \<open>main\<close> drops that error, so the query prints no line, and when the render
  step succeeded nothing is written to standard error and the exit status is 0.
\<close>

theorem missing_start_error_is_dropped:
  assumes "\<not> hasVertex (snd (buildFamilyGraph members)) start"
  shows "DFS rng (snd (buildFamilyGraph members)) start visit = Inl (NodeNotFound start) \<and>
    BFS rng (snd (buildFamilyGraph members)) start visit = Inl (NodeNotFound start) \<and>
    descendantTrace rng (snd (buildFamilyGraph members)) start = [] \<and>
    generationSweep rng (snd (buildFamilyGraph members)) start = [] \<and>
    (snd (renderPNG run (fst (buildFamilyGraph members)) ''family_tree.png'') = None \<longrightarrow>
       stderr (program run rngDFS rngBFS members start start) = [] \<and>
       exitStatus (program run rngDFS rngBFS members start start) = 0)"
  using assms
  by (simp add: DFS_missing_start BFS_missing_start descendantTrace_def generationSweep_def
      program_stderr program_exitStatus)

theorem missing_start_error_is_dropped_witness:
  "\<not> hasVertex (snd (buildFamilyGraph orphans)) ''3'' \<and>
   DFS rev (snd (buildFamilyGraph orphans)) ''3'' (\<lambda>v. True) = Inl (NodeNotFound ''3'') \<and>
   generationSweep rev (snd (buildFamilyGraph orphans)) ''3'' = [] \<and>
   exitStatus (program (\<lambda>name args stdin. None) rev (\<lambda>ks. ks) orphans ''3'' ''3'') = 0"
proof -
  have h: "\<not> hasVertex (snd (buildFamilyGraph orphans)) ''3''"
    by (simp add: buildFamilyGraph_hasVertex orphans_def)
  have r: "snd (renderPNG (\<lambda>name args stdin. None) (fst (buildFamilyGraph orphans)) ''family_tree.png'') = None"
    by (simp add: renderPNG_snd)
  show ?thesis
    using h r missing_start_error_is_dropped
      [OF h, of rev "\<lambda>v. True" "\<lambda>name args stdin. None" rev "\<lambda>ks. ks"]
    by simp
qed

section \<open>The descendant trace\<close>

text \<open>The recursive reading: first the node, then all that its successors lead to, then the rest.\<close>

lemma preorder_append:
  "preorder succs (xs @ ys) visited =
     preorder succs xs visited @ preorder succs ys (rev (preorder succs xs visited) @ visited)"
proof (induction succs xs visited arbitrary: ys rule: preorder.induct)
  case (1 succs visited)
  show ?case by simp
next
  case (2 succs v pending visited)
  show ?case
  proof (cases "v \<in> set visited")
    case True
    then show ?thesis using 2(1) by simp
  next
    case False
    then show ?thesis using 2(2) [of ys] by simp
  qed
qed

lemma preorder_recursive:
  "v \<notin> set visited \<Longrightarrow>
   preorder succs (v # pending) visited =
     v # preorder succs (index succs v) (v # visited) @
       preorder succs pending (rev (preorder succs (index succs v) (v # visited)) @ v # visited)"
  by (simp add: preorder_append)

subsection \<open>The loop of DFS is a pre-order traversal\<close>

lemma fold_Cons_rev: "fold (#) xs ys = rev xs @ ys"
  by (induction xs arbitrary: ys) simp_all

lemma index_ranged: "index (ranged rng m) k = (case map_of m k of None \<Rightarrow> [] | Some ts \<Rightarrow> rng ts)"
  by (cases "map_of m k") (simp_all add: index_def map_of_ranged)

lemma index_ranged_rev: "index (ranged rev m) k = rev (index m k)"
  by (cases "map_of m k") (simp_all add: index_def map_of_ranged)

lemma dfsLoop_preorder:
  "dfsLoop m (\<lambda>v. False) stack visited = preorder (ranged rev m) stack visited"
proof (induction m "\<lambda>v::string. False" stack visited rule: dfsLoop.induct)
  case (1 adjacencyMap visited)
  show ?case by simp
next
  case (2 adjacencyMap currentHash stack visited)
  then show ?case by (simp add: fold_Cons_rev index_ranged_rev)
qed

subsection \<open>What a pre-order traversal visits\<close>

lemma avoiding_mono: "V \<subseteq> V' \<Longrightarrow> avoiding succs V' \<subseteq> avoiding succs V"
  by (auto simp: avoiding_def)

lemma avoiding_rtrancl_outside:
  "(u, w) \<in> (avoiding succs V)\<^sup>* \<Longrightarrow> u \<notin> V \<Longrightarrow> w \<notin> V"
  by (induction rule: rtrancl_induct) (auto simp: avoiding_def)

lemma reachAvoiding_outside: "w \<in> reachAvoiding succs V S \<Longrightarrow> w \<notin> V"
  by (auto simp: reachAvoiding_def dest: avoiding_rtrancl_outside)

lemma reachAvoiding_empty [simp]: "reachAvoiding succs V {} = {}"
  by (simp add: reachAvoiding_def)

lemma reachAvoiding_seen:
  "v \<in> V \<Longrightarrow> reachAvoiding succs V (insert v S) = reachAvoiding succs V S"
  by (auto simp: reachAvoiding_def)

lemma path_split_at:
  assumes "(u, w) \<in> (avoiding succs V)\<^sup>*" and "w \<noteq> v"
  shows "(u \<noteq> v \<and> (u, w) \<in> (avoiding succs (insert v V))\<^sup>*) \<or>
    (\<exists>x \<in> set (index succs v). x \<notin> insert v V \<and> (x, w) \<in> (avoiding succs (insert v V))\<^sup>*)"
  using assms
proof (induction rule: rtrancl_induct)
  case base
  then show ?case by simp
next
  case (step y z)
  have yz: "z \<in> set (index succs y)" "y \<notin> V" "z \<notin> V"
    using step.hyps(2) by (auto simp: avoiding_def)
  show ?case
  proof (cases "y = v")
    case True
    then have "z \<in> set (index succs v)" "z \<notin> insert v V" using yz step.prems by auto
    then show ?thesis by blast
  next
    case False
    then have e: "(y, z) \<in> avoiding succs (insert v V)"
      using yz step.prems by (auto simp: avoiding_def)
    from step.IH [OF False] show ?thesis
    proof
      assume "u \<noteq> v \<and> (u, y) \<in> (avoiding succs (insert v V))\<^sup>*"
      then show ?thesis using e by (meson rtrancl.rtrancl_into_rtrancl)
    next
      assume "\<exists>x \<in> set (index succs v). x \<notin> insert v V \<and> (x, y) \<in> (avoiding succs (insert v V))\<^sup>*"
      then show ?thesis using e by (meson rtrancl.rtrancl_into_rtrancl)
    qed
  qed
qed

lemma reachAvoiding_new:
  assumes "v \<notin> V"
  shows "reachAvoiding succs V (insert v S) =
    insert v (reachAvoiding succs (insert v V) (set (index succs v) \<union> S))"
proof (intro equalityI subsetI)
  fix w assume "w \<in> reachAvoiding succs V (insert v S)"
  then obtain u where u: "u \<in> insert v S" "u \<notin> V" "(u, w) \<in> (avoiding succs V)\<^sup>*"
    by (auto simp: reachAvoiding_def)
  show "w \<in> insert v (reachAvoiding succs (insert v V) (set (index succs v) \<union> S))"
  proof (cases "w = v")
    case True
    then show ?thesis by simp
  next
    case False
    from path_split_at [OF u(3) False] show ?thesis
    proof
      assume "u \<noteq> v \<and> (u, w) \<in> (avoiding succs (insert v V))\<^sup>*"
      then show ?thesis using u(1,2) by (auto simp: reachAvoiding_def)
    next
      assume "\<exists>x \<in> set (index succs v). x \<notin> insert v V \<and> (x, w) \<in> (avoiding succs (insert v V))\<^sup>*"
      then show ?thesis unfolding reachAvoiding_def by blast
    qed
  qed
next
  fix w assume w: "w \<in> insert v (reachAvoiding succs (insert v V) (set (index succs v) \<union> S))"
  show "w \<in> reachAvoiding succs V (insert v S)"
  proof (cases "w = v")
    case True
    then show ?thesis using assms by (auto simp: reachAvoiding_def)
  next
    case False
    then obtain u where u: "u \<in> set (index succs v) \<union> S" "u \<notin> insert v V"
        "(u, w) \<in> (avoiding succs (insert v V))\<^sup>*"
      using w by (auto simp: reachAvoiding_def)
    have p: "(u, w) \<in> (avoiding succs V)\<^sup>*"
      using u(3) avoiding_mono [of V "insert v V" succs] rtrancl_mono by blast
    show ?thesis
    proof (cases "u \<in> S")
      case True
      then show ?thesis using u(2) p by (auto simp: reachAvoiding_def)
    next
      case False
      then have "(v, u) \<in> avoiding succs V" using u(1,2) assms by (auto simp: avoiding_def)
      then have "(v, w) \<in> (avoiding succs V)\<^sup>*" using p by (meson converse_rtrancl_into_rtrancl)
      then show ?thesis using assms by (auto simp: reachAvoiding_def)
    qed
  qed
qed

lemma set_preorder:
  "set (preorder succs pending visited) = reachAvoiding succs (set visited) (set pending)"
proof (induction succs pending visited rule: preorder.induct)
  case (1 succs visited)
  show ?case by simp
next
  case (2 succs v pending visited)
  show ?case
  proof (cases "v \<in> set visited")
    case True
    then show ?thesis using 2(1) by (simp add: reachAvoiding_seen)
  next
    case False
    then show ?thesis using 2(2) by (simp add: reachAvoiding_new Un_commute)
  qed
qed

lemma distinct_preorder: "distinct (preorder succs pending visited)"
proof (induction succs pending visited rule: preorder.induct)
  case (1 succs visited)
  show ?case by simp
next
  case (2 succs v pending visited)
  show ?case
  proof (cases "v \<in> set visited")
    case True
    then show ?thesis using 2(1) by simp
  next
    case False
    have "v \<notin> set (preorder succs (index succs v @ pending) (v # visited))"
      using reachAvoiding_outside [of v succs "set (v # visited)"] by (auto simp: set_preorder)
    then show ?thesis using False 2(2) by simp
  qed
qed

subsection \<open>The trace on a built graph\<close>

lemma buildFamilyGraph_edge_vertices:
  assumes "(u, w) \<in> set (edges (snd (buildFamilyGraph ms)))"
  shows "hasVertex (snd (buildFamilyGraph ms)) u \<and> hasVertex (snd (buildFamilyGraph ms)) w"
proof -
  obtain m where m: "m \<in> set ms" "resolvable (nameToID_of ms) m"
      "u = the (nameToID_of ms (ParentName m))" "w = ID m"
    using assms unfolding buildFamilyGraph_edges by blast
  then obtain p where "nameToID_of ms (ParentName m) = Some p" by (auto simp: resolvable_def)
  then have "u \<in> ID ` set ms" using m(3) nameToID_of_SomeD by fastforce
  then show ?thesis using m(1,4) by (simp add: buildFamilyGraph_hasVertex)
qed

lemma ranged_ranged: "ranged f (ranged g m) = ranged (\<lambda>ks. f (g ks)) m"
  by (induction m) (auto simp: ranged_def)

lemma set_index_ranged_AdjacencyMap:
  assumes "\<forall>ks. set (rng ks) = set ks"
  shows "set (index (ranged rng (AdjacencyMap g)) u) =
    (if hasVertex g u then {w. (u, w) \<in> set (edges g)} else {})"
  using assms by (force simp: index_ranged map_of_AdjacencyMap)

lemma avoiding_nothing_built:
  assumes "\<forall>ks. set (rng ks) = set ks"
  shows "avoiding (ranged rng (AdjacencyMap (snd (buildFamilyGraph ms)))) {} =
    set (edges (snd (buildFamilyGraph ms)))"
  using assms buildFamilyGraph_edge_vertices [of _ _ ms]
  by (auto simp: avoiding_def set_index_ranged_AdjacencyMap split: if_splits)

lemma DFS_present_start:
  "hasVertex g start \<Longrightarrow>
   DFS rng g start visit = Inr (dfsLoop (ranged rng (AdjacencyMap g)) visit [start] [])"
  by (simp add: DFS_def Let_def map_of_ranged map_of_AdjacencyMap del: dfsLoop.simps)

text \<open>The graph of the dataset of \<open>main\<close>, evaluated.\<close>

lemma g_eval: "snd (buildFamilyGraph familyData) =
  \<lparr>vertices =
     [(''1'', \<lparr>ID = ''1'', Name = ''Jordon D'', ParentName = []\<rparr>),
      (''2'', \<lparr>ID = ''2'', Name = ''Robert Smith'', ParentName = []\<rparr>),
      (''3'', \<lparr>ID = ''3'', Name = ''Danis Jordan'', ParentName = ''Jordon D''\<rparr>),
      (''4'', \<lparr>ID = ''4'', Name = ''John Smith'', ParentName = ''Robert Smith''\<rparr>),
      (''5'', \<lparr>ID = ''5'', Name = ''Maria Smith'', ParentName = ''Robert Smith''\<rparr>),
      (''6'', \<lparr>ID = ''6'', Name = ''Leo Smith'', ParentName = ''John Smith''\<rparr>)],
     edges = [(''1'', ''3''), (''2'', ''4''), (''2'', ''5''), (''4'', ''6'')]\<rparr>"
  by code_simp

lemma am_eval: "AdjacencyMap (snd (buildFamilyGraph familyData)) =
  [(''1'', [''3'']), (''2'', [''4'', ''5'']), (''3'', []), (''4'', [''6'']), (''5'', []), (''6'', [])]"
  unfolding g_eval by code_simp

lemma familyData_ranged_id:
  "ranged (\<lambda>ks. ks) (AdjacencyMap (snd (buildFamilyGraph familyData))) =
     AdjacencyMap (snd (buildFamilyGraph familyData))"
  by (simp add: ranged_def am_eval)

text \<open>
  Claim C3 says that the trace is the pre-order in which the successors of a node are taken
  in the order in which their edges were inserted. On the dataset of \<open>main\<close>, with
  \<open>range\<close> yielding the successors in insertion order, \<open>graph.DFS\<close> from Robert Smith
  visits Maria Smith (ID 5) before John Smith (ID 4), which is the output that README.md
  shows; the pre-order with the successors in insertion order visits John Smith and Leo
  Smith first.
\<close>

theorem descendant_trace_order_counterexample:
  "DFS (\<lambda>ks. ks) (snd (buildFamilyGraph familyData)) ''2'' (\<lambda>v. False)
     = Inr [''2'', ''5'', ''4'', ''6''] \<and>
   preorder (AdjacencyMap (snd (buildFamilyGraph familyData))) [''2''] []
     = [''2'', ''4'', ''6'', ''5''] \<and>
   descendantTrace (\<lambda>ks. ks) (snd (buildFamilyGraph familyData)) ''2''
     = ['' -> Robert Smith'', '' -> Maria Smith'', '' -> John Smith'', '' -> Leo Smith'']"
proof -
  have d: "DFS (\<lambda>ks. ks) (snd (buildFamilyGraph familyData)) ''2'' (\<lambda>v. False)
     = Inr [''2'', ''5'', ''4'', ''6'']"
    by (simp add: DFS_def familyData_ranged_id) (simp add: am_eval index_def)
  have p: "preorder (AdjacencyMap (snd (buildFamilyGraph familyData))) [''2''] []
     = [''2'', ''4'', ''6'', ''5'']"
    by (simp add: am_eval index_def)
  have t: "descendantTrace (\<lambda>ks. ks) (snd (buildFamilyGraph familyData)) ''2''
     = ['' -> Robert Smith'', '' -> Maria Smith'', '' -> John Smith'', '' -> Leo Smith'']"
    by (simp add: descendantTrace_def d) (simp add: vertexName_def Vertex_def g_eval)
  show ?thesis using d p t by simp
qed

text \<open>
  Claim C3 as amended: for a graph built by buildFamilyGraph and a start ID in it, the trace
  visits exactly the nodes reachable from the start along the edges, each once, in
  pre-order, where the successors of a node are taken in the reverse of the order in which
  \<open>range\<close> yields them from the node's adjacency map (Go leaves that order open; the
  successor pushed last is popped first).
\<close>

theorem descendant_trace_reachable_preorder:
  assumes "\<forall>ks. set (rng ks) = set ks"
    and "hasVertex (snd (buildFamilyGraph members)) start"
  shows "\<exists>order.
    DFS rng (snd (buildFamilyGraph members)) start (\<lambda>v. False) = Inr order \<and>
    set order = {w. (start, w) \<in> (set (edges (snd (buildFamilyGraph members))))\<^sup>*} \<and>
    distinct order \<and>
    order = preorder (ranged (\<lambda>ks. rev (rng ks)) (AdjacencyMap (snd (buildFamilyGraph members))))
              [start] [] \<and>
    descendantTrace rng (snd (buildFamilyGraph members)) start =
      map (\<lambda>v. '' -> '' @ vertexName (snd (buildFamilyGraph members)) v) order"
proof -
  let ?g = "snd (buildFamilyGraph members)"
  let ?succs = "ranged (\<lambda>ks. rev (rng ks)) (AdjacencyMap ?g)"
  let ?order = "preorder ?succs [start] []"
  have perm: "\<forall>ks. set (rev (rng ks)) = set ks" using assms(1) by simp
  have d: "DFS rng ?g start (\<lambda>v. False) = Inr ?order"
    using assms(2) by (simp add: DFS_present_start dfsLoop_preorder ranged_ranged del: preorder.simps)
  have "set ?order = reachAvoiding ?succs (set []) (set [start])" by (rule set_preorder)
  also have "\<dots> = reachAvoiding ?succs {} {start}" by simp
  also have "\<dots> = {w. (start, w) \<in> (avoiding ?succs {})\<^sup>*}" by (simp add: reachAvoiding_def)
  also have "\<dots> = {w. (start, w) \<in> (set (edges ?g))\<^sup>*}"
    using avoiding_nothing_built [OF perm, of members] by simp
  finally have s: "set ?order = {w. (start, w) \<in> (set (edges ?g))\<^sup>*}" .
  have t: "descendantTrace rng ?g start = map (\<lambda>v. '' -> '' @ vertexName ?g v) ?order"
    using d by (simp add: descendantTrace_def del: preorder.simps)
  show ?thesis using d s t distinct_preorder [of ?succs "[start]" "[]"] by blast
qed

theorem descendant_trace_reachable_preorder_witness:
  "hasVertex (snd (buildFamilyGraph familyData)) ''2'' \<and>
   DFS rev (snd (buildFamilyGraph familyData)) ''2'' (\<lambda>v. False) = Inr [''2'', ''4'', ''6'', ''5''] \<and>
   set [''2'', ''4'', ''6'', ''5''] = {w. (''2'', w) \<in> (set (edges (snd (buildFamilyGraph familyData))))\<^sup>*}"
proof -
  have p: "\<forall>ks::string list. set (rev ks) = set ks" by simp
  have h: "hasVertex (snd (buildFamilyGraph familyData)) ''2''"
    by (simp add: buildFamilyGraph_hasVertex familyData_def)
  have e: "DFS rev (snd (buildFamilyGraph familyData)) ''2'' (\<lambda>v. False) = Inr [''2'', ''4'', ''6'', ''5'']"
    by (simp add: DFS_def am_eval ranged_def) (simp add: index_def)
  obtain order where o: "DFS rev (snd (buildFamilyGraph familyData)) ''2'' (\<lambda>v. False) = Inr order"
    "set order = {w. (''2'', w) \<in> (set (edges (snd (buildFamilyGraph familyData))))\<^sup>*}"
    using descendant_trace_reachable_preorder [OF p h] by blast
  then have "order = [''2'', ''4'', ''6'', ''5'']" using e by simp
  then show ?thesis using h e o(2) by simp
qed

section \<open>The generation sweep\<close>

lemma generations_Nil [simp]: "generations succs [] visited = []"
  by (simp add: generations.simps)

lemma generations_step:
  "level \<noteq> [] \<Longrightarrow>
   generations succs level visited =
     level # generations succs (fresh (concat (map (index succs) level)) visited)
       (rev (fresh (concat (map (index succs) level)) visited) @ visited)"
  by (subst generations.simps) simp

subsection \<open>The loop of BFS visits generation after generation\<close>

lemma fresh_append:
  "fresh (xs @ ys) visited = fresh xs visited @ fresh ys (rev (fresh xs visited) @ visited)"
  by (induction xs visited rule: fresh.induct) simp_all

lemma bfsLoop_level:
  "bfsLoop m (\<lambda>v. False) (level @ nxt) visited =
     level @ bfsLoop m (\<lambda>v. False) (nxt @ fresh (concat (map (index m) level)) visited)
       (rev (fresh (concat (map (index m) level)) visited) @ visited)"
proof (induction level arbitrary: nxt visited)
  case Nil
  show ?case by simp
next
  case (Cons v level)
  let ?new = "fresh (index m v) visited"
  have "bfsLoop m (\<lambda>v. False) ((v # level) @ nxt) visited =
      v # bfsLoop m (\<lambda>v. False) (level @ (nxt @ ?new)) (rev ?new @ visited)"
    by (simp add: enqueueNew_fresh)
  also have "\<dots> = v # level @ bfsLoop m (\<lambda>v. False)
      ((nxt @ ?new) @ fresh (concat (map (index m) level)) (rev ?new @ visited))
      (rev (fresh (concat (map (index m) level)) (rev ?new @ visited)) @ rev ?new @ visited)"
    by (simp only: Cons.IH)
  finally show ?case by (simp add: fresh_append)
qed

lemma bfsLoop_generations:
  "bfsLoop m (\<lambda>v. False) level visited = concat (generations m level visited)"
proof (induction m level visited rule: generations.induct)
  case (1 succs level visited)
  show ?case
  proof (cases "level = []")
    case True
    then show ?thesis by simp
  next
    case False
    have "bfsLoop succs (\<lambda>v. False) (level @ []) visited =
        level @ bfsLoop succs (\<lambda>v. False) ([] @ fresh (concat (map (index succs) level)) visited)
          (rev (fresh (concat (map (index succs) level)) visited) @ visited)"
      by (rule bfsLoop_level)
    then show ?thesis using False 1 [OF False] by (simp add: generations_step del: bfsLoop.simps)
  qed
qed

subsection \<open>Generations and distance\<close>

lemma ball_mono: "m \<le> n \<Longrightarrow> ball E s m \<subseteq> ball E s n"
  by (induction n) (auto simp: le_Suc_eq)

lemma ring_Suc: "ring E s (Suc n) = E `` ring E s n - ball E s n"
proof (intro equalityI subsetI)
  fix w assume w: "w \<in> ring E s (Suc n)"
  then have nb: "w \<notin> ball E s n" and "w \<in> ball E s (Suc n)" by (auto simp: ring_def)
  then obtain u where u: "u \<in> ball E s n" "(u, w) \<in> E" by auto
  have "u \<notin> ball E s k" if "k < n" for k
  proof
    assume "u \<in> ball E s k"
    then have "w \<in> ball E s (Suc k)" using u(2) by auto
    moreover have "Suc k \<le> n" using that by simp
    ultimately show False using nb ball_mono by blast
  qed
  then have "u \<in> ring E s n" using u(1) by (simp add: ring_def)
  then show "w \<in> E `` ring E s n - ball E s n" using u(2) nb by blast
next
  fix w assume w: "w \<in> E `` ring E s n - ball E s n"
  then have "w \<in> ball E s (Suc n)" by (auto simp: ring_def)
  moreover have "w \<notin> ball E s k" if "k < Suc n" for k
  proof -
    have "k \<le> n" using that by simp
    then show ?thesis using w ball_mono by blast
  qed
  ultimately show "w \<in> ring E s (Suc n)" by (simp add: ring_def)
qed

lemma ball_Suc_ring: "ball E s (Suc n) = ball E s n \<union> ring E s (Suc n)"
proof -
  have "ball E s (Suc n) - ball E s n \<subseteq> ring E s (Suc n)"
  proof
    fix w assume w: "w \<in> ball E s (Suc n) - ball E s n"
    have "w \<notin> ball E s k" if "k < Suc n" for k
    proof -
      have "k \<le> n" using that by simp
      then show ?thesis using w ball_mono by blast
    qed
    then show "w \<in> ring E s (Suc n)" using w by (simp add: ring_def)
  qed
  moreover have "ring E s (Suc n) \<subseteq> ball E s (Suc n)" by (auto simp: ring_def)
  ultimately show ?thesis by auto
qed

lemma distance_ring: "v \<in> ring E s n \<Longrightarrow> distance E s v = n"
  unfolding distance_def ring_def
  by (intro Least_equality) (auto simp: not_less [symmetric])

lemma Image_index:
  "avoiding succs {} `` set level = set (concat (map (index succs) level))"
  by (auto simp: avoiding_def)

lemma generations_rings:
  assumes "set visited = ball (avoiding succs {}) s n" and "set level = ring (avoiding succs {}) s n"
    and "i < length (generations succs level visited)"
  shows "set (generations succs level visited ! i) = ring (avoiding succs {}) s (n + i)"
  using assms
proof (induction succs level visited arbitrary: n i rule: generations.induct)
  case (1 succs level visited)
  let ?E = "avoiding succs {}"
  let ?new = "fresh (concat (map (index succs) level)) visited"
  have ne: "level \<noteq> []" using "1.prems"(3) by (cases "level = []") simp_all
  have g: "generations succs level visited = level # generations succs ?new (rev ?new @ visited)"
    using ne by (rule generations_step)
  show ?case
  proof (cases i)
    case 0
    then show ?thesis using g "1.prems"(2) by simp
  next
    case (Suc j)
    have "set ?new = ?E `` set level - set visited"
      by (simp only: set_fresh Image_index)
    then have new: "set ?new = ring ?E s (Suc n)"
      using "1.prems"(1,2) by (simp only: ring_Suc)
    have vis: "set (rev ?new @ visited) = ball ?E s (Suc n)"
      using new "1.prems"(1) by (simp only: ball_Suc_ring) auto
    have j: "j < length (generations succs ?new (rev ?new @ visited))"
      using "1.prems"(3) g Suc by simp
    have "set (generations succs ?new (rev ?new @ visited) ! j) = ring ?E s (Suc n + j)"
      using "1.IH" [OF ne vis new j] .
    then show ?thesis using g Suc by simp
  qed
qed

lemma sorted_concat_levels:
  "(\<And>i v. i < length xss \<Longrightarrow> v \<in> set (xss ! i) \<Longrightarrow> f v = n + i) \<Longrightarrow>
   sorted (map f (concat xss))"
proof (induction xss arbitrary: n)
  case Nil
  show ?case by simp
next
  case (Cons xs xss)
  have hd: "f v = n" if "v \<in> set xs" for v using Cons.prems [of 0 v] that by simp
  have tl: "f v = Suc n + i" if "i < length xss" "v \<in> set (xss ! i)" for i v
    using Cons.prems [of "Suc i" v] that by simp
  have s: "sorted (map f (concat xss))" using Cons.IH [of "Suc n"] tl by blast
  have ge: "n \<le> f v" if v: "v \<in> set (concat xss)" for v
  proof -
    obtain ys where "ys \<in> set xss" "v \<in> set ys" using v by auto
    then obtain i where "i < length xss" "xss ! i = ys" by (auto simp: in_set_conv_nth)
    then show ?thesis using tl [of i v] \<open>v \<in> set ys\<close> by simp
  qed
  have "sorted (map f xs)"
  proof -
    have "map f xs = replicate (length xs) n" using hd by (simp add: map_replicate_const [symmetric] cong: map_cong)
    then show ?thesis by (simp add: sorted_replicate)
  qed
  then show ?case using s hd ge by (auto simp: sorted_append)
qed

lemma distinct_fresh: "distinct (fresh adj visited)"
  by (induction adj visited rule: fresh.induct) (auto simp: set_fresh)

lemma ring_disjoint: "m \<noteq> n \<Longrightarrow> ring E s m \<inter> ring E s n = {}"
proof -
  have "ring E s a \<inter> ring E s b = {}" if "a < b" for a b
    using that by (auto simp: ring_def)
  then show "m \<noteq> n \<Longrightarrow> ring E s m \<inter> ring E s n = {}"
    by (cases "m < n") (auto simp: not_less le_less)
qed

lemma generations_nth_ring:
  assumes "set visited = ball (avoiding succs {}) s n" and "set level = ring (avoiding succs {}) s n"
    and "v \<in> set (concat (generations succs level visited))"
  shows "\<exists>i. v \<in> ring (avoiding succs {}) s (n + i)"
proof -
  obtain xs where xs: "xs \<in> set (generations succs level visited)" "v \<in> set xs"
    using assms(3) by auto
  then obtain i where i: "i < length (generations succs level visited)"
      "generations succs level visited ! i = xs"
    by (auto simp: in_set_conv_nth)
  then show ?thesis using generations_rings [OF assms(1,2) i(1)] xs(2) by auto
qed

lemma distinct_generations:
  assumes "set visited = ball (avoiding succs {}) s n" and "set level = ring (avoiding succs {}) s n"
    and "distinct level"
  shows "distinct (concat (generations succs level visited))"
  using assms
proof (induction succs level visited arbitrary: n rule: generations.induct)
  case (1 succs level visited)
  let ?E = "avoiding succs {}"
  let ?new = "fresh (concat (map (index succs) level)) visited"
  show ?case
  proof (cases "level = []")
    case True
    then show ?thesis by simp
  next
    case False
    have "set ?new = ?E `` set level - set visited"
      by (simp only: set_fresh Image_index)
    then have new: "set ?new = ring ?E s (Suc n)"
      using "1.prems"(1,2) by (simp only: ring_Suc)
    have vis: "set (rev ?new @ visited) = ball ?E s (Suc n)"
      using new "1.prems"(1) by (simp only: ball_Suc_ring) auto
    have d: "distinct (concat (generations succs ?new (rev ?new @ visited)))"
      using "1.IH" [OF False vis new distinct_fresh] .
    have "set level \<inter> set (concat (generations succs ?new (rev ?new @ visited))) = {}"
    proof (rule ccontr)
      assume "set level \<inter> set (concat (generations succs ?new (rev ?new @ visited))) \<noteq> {}"
      then obtain v where v: "v \<in> set level"
          "v \<in> set (concat (generations succs ?new (rev ?new @ visited)))"
        by blast
      then obtain i where "v \<in> ring ?E s (Suc n + i)"
        using generations_nth_ring [OF vis new] by blast
      moreover have "v \<in> ring ?E s n" using v(1) "1.prems"(2) by simp
      ultimately show False using ring_disjoint [of n "Suc n + i" ?E s] by auto
    qed
    then show ?thesis using False d "1.prems"(3) by (simp add: generations_step del: set_concat)
  qed
qed

lemma ring_empty_after: "ring E s n = {} \<Longrightarrow> ring E s (n + k) = {}"
  by (induction k) (simp_all add: ring_Suc)

lemma generations_end:
  assumes "set visited = ball (avoiding succs {}) s n" and "set level = ring (avoiding succs {}) s n"
  shows "ring (avoiding succs {}) s (n + length (generations succs level visited)) = {}"
  using assms
proof (induction succs level visited arbitrary: n rule: generations.induct)
  case (1 succs level visited)
  let ?E = "avoiding succs {}"
  let ?new = "fresh (concat (map (index succs) level)) visited"
  show ?case
  proof (cases "level = []")
    case True
    then show ?thesis using "1.prems"(2) by simp
  next
    case False
    have "set ?new = ?E `` set level - set visited"
      by (simp only: set_fresh Image_index)
    then have new: "set ?new = ring ?E s (Suc n)"
      using "1.prems"(1,2) by (simp only: ring_Suc)
    have vis: "set (rev ?new @ visited) = ball ?E s (Suc n)"
      using new "1.prems"(1) by (simp only: ball_Suc_ring) auto
    have "ring ?E s (Suc n + length (generations succs ?new (rev ?new @ visited))) = {}"
      using "1.IH" [OF False vis new] .
    then show ?thesis using False by (simp add: generations_step)
  qed
qed

lemma ball_reachable: "(\<Union>n. ball E s n) = E\<^sup>* `` {s}"
proof (intro equalityI subsetI)
  fix v assume "v \<in> (\<Union>n. ball E s n)"
  then obtain n where "v \<in> ball E s n" by blast
  then have "(s, v) \<in> E\<^sup>*"
  proof (induction n arbitrary: v)
    case 0
    then show ?case by simp
  next
    case (Suc n)
    then show ?case by (auto intro: rtrancl.rtrancl_into_rtrancl)
  qed
  then show "v \<in> E\<^sup>* `` {s}" by blast
next
  fix v assume "v \<in> E\<^sup>* `` {s}"
  then have "(s, v) \<in> E\<^sup>*" by blast
  then have "\<exists>n. v \<in> ball E s n"
  proof (induction rule: rtrancl_induct)
    case base
    have "s \<in> ball E s 0" by simp
    then show ?case by blast
  next
    case (step y z)
    then obtain n where "y \<in> ball E s n" by blast
    then have "z \<in> ball E s (Suc n)" using step.hyps(2) by auto
    then show ?case by blast
  qed
  then show "v \<in> (\<Union>n. ball E s n)" by blast
qed

lemma ball_in_some_ring: "v \<in> ball E s n \<Longrightarrow> \<exists>m \<le> n. v \<in> ring E s m"
proof (induction n)
  case 0
  then show ?case by (auto simp: ring_def)
next
  case (Suc n)
  then show ?case using ball_Suc_ring [of E s n] by (auto simp: le_Suc_eq)
qed

lemma set_generations:
  assumes "set level = {s}" and "set visited = {s}"
  shows "set (concat (generations succs level visited)) = (avoiding succs {})\<^sup>* `` {s}"
proof -
  let ?E = "avoiding succs {}"
  let ?gs = "generations succs level visited"
  have v0: "set visited = ball ?E s 0" using assms(2) by simp
  have l0: "set level = ring ?E s 0" using assms(1) by (auto simp: ring_def)
  have rings: "set (?gs ! i) = ring ?E s i" if "i < length ?gs" for i
    using generations_rings [OF v0 l0 that] by simp
  have stop: "ring ?E s (length ?gs + k) = {}" for k
    using generations_end [OF v0 l0] ring_empty_after by simp
  have "set (concat ?gs) = (\<Union>n. ball ?E s n)"
  proof (intro equalityI subsetI)
    fix v assume "v \<in> set (concat ?gs)"
    then obtain i where "v \<in> ring ?E s (0 + i)"
      using generations_nth_ring [OF v0 l0] by blast
    then show "v \<in> (\<Union>n. ball ?E s n)" by (auto simp: ring_def)
  next
    fix v assume "v \<in> (\<Union>n. ball ?E s n)"
    then obtain m where m: "v \<in> ring ?E s m" using ball_in_some_ring by blast
    have "m < length ?gs"
    proof (rule ccontr)
      assume "\<not> m < length ?gs"
      then have "m = length ?gs + (m - length ?gs)" by simp
      then have "ring ?E s m = {}" using stop [of "m - length ?gs"] by simp
      then show False using m by simp
    qed
    then have "v \<in> set (?gs ! m)" using rings m by simp
    then show "v \<in> set (concat ?gs)" using \<open>m < length ?gs\<close> by auto
  qed
  then show ?thesis by (simp only: ball_reachable)
qed

subsection \<open>The sweep on a built graph\<close>

lemma BFS_present_start:
  "hasVertex g start \<Longrightarrow>
   BFS rng g start visit = Inr (bfsLoop (ranged rng (AdjacencyMap g)) visit [start] [start])"
  by (simp add: BFS_def Let_def map_of_ranged map_of_AdjacencyMap del: bfsLoop.simps)

lemma ring_zero: "ring E s 0 = {s}"
  by (auto simp: ring_def)

lemma familyData_ranged_rev:
  "ranged rev (AdjacencyMap (snd (buildFamilyGraph familyData))) =
     [(''1'', [''3'']), (''2'', [''5'', ''4'']), (''3'', []), (''4'', [''6'']), (''5'', []), (''6'', [])]"
  by (simp add: ranged_def am_eval)

text \<open>
  Claim C4 says that nodes at equal distance are visited in edge-discovery order, the order
  that the spec (sections 4.3 and 8) ties to the order of the edges. On the dataset of
  \<open>main\<close> the edge from Robert Smith (ID 2) to John Smith (ID 4) is inserted before the
  edge to Maria Smith (ID 5), and both are at distance 1 from Robert Smith. The generations
  taken in the order of the edges visit John Smith first. When \<open>range\<close> yields the
  successors of Robert Smith in the other order, which Go allows, \<open>graph.BFS\<close> visits
  Maria Smith first.
\<close>

theorem generation_sweep_order_counterexample:
  "edges (snd (buildFamilyGraph familyData)) = [(''1'', ''3''), (''2'', ''4''), (''2'', ''5''), (''4'', ''6'')] \<and>
   distance (set (edges (snd (buildFamilyGraph familyData)))) ''2'' ''4'' = 1 \<and>
   distance (set (edges (snd (buildFamilyGraph familyData)))) ''2'' ''5'' = 1 \<and>
   concat (generations (AdjacencyMap (snd (buildFamilyGraph familyData))) [''2''] [''2''])
     = [''2'', ''4'', ''5'', ''6''] \<and>
   BFS rev (snd (buildFamilyGraph familyData)) ''2'' (\<lambda>v. False)
     = Inr [''2'', ''5'', ''4'', ''6''] \<and>
   generationSweep rev (snd (buildFamilyGraph familyData)) ''2''
     = ['' - Found: Robert Smith'', '' - Found: Maria Smith'', '' - Found: John Smith'',
        '' - Found: Leo Smith'']"
proof -
  let ?g = "snd (buildFamilyGraph familyData)"
  have e: "edges ?g = [(''1'', ''3''), (''2'', ''4''), (''2'', ''5''), (''4'', ''6'')]"
    by (simp add: g_eval)
  have r: "ring (set (edges ?g)) ''2'' (Suc 0) = {''4'', ''5''}"
    unfolding ring_Suc ring_zero e by auto
  have d4: "distance (set (edges ?g)) ''2'' ''4'' = 1"
    using distance_ring [of "''4''" "set (edges ?g)" "''2''" "Suc 0"] r by simp
  have d5: "distance (set (edges ?g)) ''2'' ''5'' = 1"
    using distance_ring [of "''5''" "set (edges ?g)" "''2''" "Suc 0"] r by simp
  have s: "concat (generations (AdjacencyMap ?g) [''2''] [''2'']) = [''2'', ''4'', ''5'', ''6'']"
    by (simp add: am_eval generations_step index_def)
  have b: "BFS rev ?g ''2'' (\<lambda>v. False) = Inr [''2'', ''5'', ''4'', ''6'']"
    by (simp add: BFS_def familyData_ranged_rev) (simp add: index_def)
  have t: "generationSweep rev ?g ''2''
     = ['' - Found: Robert Smith'', '' - Found: Maria Smith'', '' - Found: John Smith'',
        '' - Found: Leo Smith'']"
    by (simp add: generationSweep_def b) (simp add: vertexName_def Vertex_def g_eval)
  show ?thesis using e d4 d5 s b t by simp
qed

text \<open>
  Claim C4 as amended: for a graph built by buildFamilyGraph and a start ID in it, the sweep
  visits the nodes in non-decreasing distance from the start; it visits generation after
  generation, the nodes of generation \<open>i\<close> being those at distance \<open>i\<close>, and within a
  generation the nodes come in the order in which the sweep discovered them, which follows
  the order in which \<open>range\<close> yields the successors from the adjacency maps (Go leaves
  that order open) and not the order in which the edges were inserted. It visits exactly
  the nodes reachable from the start, each once.
\<close>

theorem generation_sweep_by_distance:
  assumes "\<forall>ks. set (rng ks) = set ks"
    and "hasVertex (snd (buildFamilyGraph members)) start"
  shows "\<exists>order.
    BFS rng (snd (buildFamilyGraph members)) start (\<lambda>v. False) = Inr order \<and>
    sorted (map (distance (set (edges (snd (buildFamilyGraph members)))) start) order) \<and>
    order = concat (generations (ranged rng (AdjacencyMap (snd (buildFamilyGraph members))))
                      [start] [start]) \<and>
    (\<forall>i < length (generations (ranged rng (AdjacencyMap (snd (buildFamilyGraph members))))
                    [start] [start]).
       \<forall>v \<in> set (generations (ranged rng (AdjacencyMap (snd (buildFamilyGraph members))))
                    [start] [start] ! i).
         distance (set (edges (snd (buildFamilyGraph members)))) start v = i) \<and>
    set order = {w. (start, w) \<in> (set (edges (snd (buildFamilyGraph members))))\<^sup>*} \<and>
    distinct order \<and>
    generationSweep rng (snd (buildFamilyGraph members)) start =
      map (\<lambda>v. '' - Found: '' @ vertexName (snd (buildFamilyGraph members)) v) order"
proof -
  let ?g = "snd (buildFamilyGraph members)"
  let ?succs = "ranged rng (AdjacencyMap ?g)"
  let ?E = "set (edges ?g)"
  let ?gs = "generations ?succs [start] [start]"
  have E: "avoiding ?succs {} = ?E" using avoiding_nothing_built [OF assms(1)] .
  have v0: "set [start] = ball (avoiding ?succs {}) start 0" by simp
  have l0: "set [start] = ring (avoiding ?succs {}) start 0" by (auto simp: ring_def)
  have b: "BFS rng ?g start (\<lambda>v. False) = Inr (concat ?gs)"
    using assms(2) by (simp only: BFS_present_start bfsLoop_generations)
  have r: "distance ?E start v = i" if "i < length ?gs" "v \<in> set (?gs ! i)" for i v
  proof -
    have "set (?gs ! i) = ring ?E start (0 + i)"
      using generations_rings [OF v0 l0 that(1)] E by simp
    then show ?thesis using that(2) distance_ring by simp
  qed
  have s: "sorted (map (distance ?E start) (concat ?gs))"
    using sorted_concat_levels [of ?gs "distance ?E start" 0] r by simp
  have reach: "set (concat ?gs) = {w. (start, w) \<in> ?E\<^sup>*}"
    using set_generations [of "[start]" start "[start]" ?succs] E by auto
  have d: "distinct (concat ?gs)"
    using distinct_generations [OF v0 l0] by simp
  have t: "generationSweep rng ?g start = map (\<lambda>v. '' - Found: '' @ vertexName ?g v) (concat ?gs)"
    using b by (simp add: generationSweep_def)
  show ?thesis using b s r reach d t by blast
qed

theorem generation_sweep_by_distance_witness:
  "hasVertex (snd (buildFamilyGraph familyData)) ''2'' \<and>
   BFS (\<lambda>ks. ks) (snd (buildFamilyGraph familyData)) ''2'' (\<lambda>v. False)
     = Inr [''2'', ''4'', ''5'', ''6''] \<and>
   sorted (map (distance (set (edges (snd (buildFamilyGraph familyData)))) ''2'')
     [''2'', ''4'', ''5'', ''6'']) \<and>
   generationSweep (\<lambda>ks. ks) (snd (buildFamilyGraph familyData)) ''1''
     = ['' - Found: Jordon D'', '' - Found: Danis Jordan'']"
proof -
  have p: "\<forall>ks::string list. set ((\<lambda>ks. ks) ks) = set ks" by simp
  have h: "hasVertex (snd (buildFamilyGraph familyData)) ''2''"
    by (simp add: buildFamilyGraph_hasVertex familyData_def)
  have e: "BFS (\<lambda>ks. ks) (snd (buildFamilyGraph familyData)) ''2'' (\<lambda>v. False)
     = Inr [''2'', ''4'', ''5'', ''6'']"
    by (simp add: BFS_def familyData_ranged_id) (simp add: am_eval index_def)
  have b1: "BFS (\<lambda>ks. ks) (snd (buildFamilyGraph familyData)) ''1'' (\<lambda>v. False) = Inr [''1'', ''3'']"
    by (simp add: BFS_def familyData_ranged_id) (simp add: am_eval index_def)
  have t: "generationSweep (\<lambda>ks. ks) (snd (buildFamilyGraph familyData)) ''1''
     = ['' - Found: Jordon D'', '' - Found: Danis Jordan'']"
    by (simp add: generationSweep_def b1) (simp add: vertexName_def Vertex_def g_eval)
  obtain order where o:
    "BFS (\<lambda>ks. ks) (snd (buildFamilyGraph familyData)) ''2'' (\<lambda>v. False) = Inr order"
    "sorted (map (distance (set (edges (snd (buildFamilyGraph familyData)))) ''2'') order)"
    using generation_sweep_by_distance [OF p h] by blast
  then have "order = [''2'', ''4'', ''5'', ''6'']" using e by simp
  then show ?thesis using h e o(2) t by simp
qed

section \<open>Reading the description text back\<close>

subsection \<open>Tokens of the description text\<close>

lemma lexDot_InStr:
  "clean s \<Longrightarrow>
   lexDot (InStr acc) (s @ dquote # rest) = map_option ((#) (Str (rev acc @ s))) (lexDot Outside rest)"
proof (induction s arbitrary: acc)
  case Nil
  show ?case by simp
next
  case (Cons c s)
  then have "c \<noteq> dquote" "c \<noteq> backslash" "clean s" by (auto simp: clean_def)
  then show ?case using Cons.IH [of "c # acc"] by simp
qed

lemma map_option_append:
  "map_option ((@) xs) (map_option ((@) ys) r) = map_option ((@) (xs @ ys)) r"
  by (cases r) simp_all

lemma map_option_Cons_append:
  "map_option ((#) x) (map_option ((@) ys) r) = map_option ((@) (x # ys)) r"
  by (cases r) simp_all

lemma lexDot_quoted:
  "clean s \<Longrightarrow>
   lexDot Outside (quoted s @ rest) = map_option ((#) (Str s)) (lexDot Outside rest)"
  using lexDot_InStr [of s "[]" rest]
  by (cases "lexDot Outside rest") (simp_all add: quoted_def outsideStep_def)

lemma lexDot_label:
  "lexDot Outside ('' [label='' @ rest) =
     map_option ((@) [Sym (CHR ''[''), Ident ''label'', Sym (CHR ''='')]) (lexDot Outside rest)"
  by (cases "lexDot Outside rest")
     (simp_all add: outsideStep_def isSpace_def isIdChar_def dquote_def newline_def)

lemma lexDot_close:
  "lexDot Outside (''];'' @ newline # rest) =
     map_option ((@) [Sym (CHR '']''), Sym (CHR '';'')]) (lexDot Outside rest)"
  by (cases "lexDot Outside rest")
     (simp_all add: outsideStep_def isSpace_def isIdChar_def dquote_def newline_def)

lemma lexDot_arrow:
  "lexDot Outside ('' -> '' @ rest) =
     map_option ((@) [Sym (CHR ''-''), Sym (CHR ''>'')]) (lexDot Outside rest)"
  by (cases "lexDot Outside rest")
     (simp_all add: outsideStep_def isSpace_def isIdChar_def dquote_def newline_def)

lemma lexDot_semicolon:
  "lexDot Outside ('';'' @ newline # rest) =
     map_option ((@) [Sym (CHR '';'')]) (lexDot Outside rest)"
  by (cases "lexDot Outside rest")
     (simp_all add: outsideStep_def isSpace_def isIdChar_def dquote_def newline_def)

lemma lexDot_indent:
  "lexDot Outside (''  '' @ rest) = lexDot Outside rest"
  by (cases "lexDot Outside rest")
     (simp_all add: outsideStep_def isSpace_def isIdChar_def dquote_def newline_def)

lemma lexDot_nodeLine:
  assumes "clean (ID n)" and "clean (Name n)"
  shows "lexDot Outside (nodeLine n @ rest) = map_option ((@) (nodeTokens n)) (lexDot Outside rest)"
proof -
  have "nodeLine n @ rest =
      ''  '' @ (quoted (ID n) @ ('' [label='' @ (quoted (Name n) @ (''];'' @ newline # rest))))"
    by (simp add: nodeLine_def)
  then show ?thesis
    by (simp only: lexDot_indent lexDot_quoted [OF assms(1)] lexDot_quoted [OF assms(2)]
        lexDot_label lexDot_close map_option_append map_option_Cons_append nodeTokens_def)
       simp
qed

lemma lexDot_edgeLine:
  assumes "clean (From e)" and "clean (To e)"
  shows "lexDot Outside (edgeLine e @ rest) = map_option ((@) (edgeTokens e)) (lexDot Outside rest)"
proof -
  have "edgeLine e @ rest =
      ''  '' @ (quoted (From e) @ ('' -> '' @ (quoted (To e) @ ('';'' @ newline # rest))))"
    by (simp add: edgeLine_def)
  then show ?thesis
    by (simp only: lexDot_indent lexDot_quoted [OF assms(1)] lexDot_quoted [OF assms(2)]
        lexDot_arrow lexDot_semicolon map_option_append map_option_Cons_append edgeTokens_def)
       simp
qed

lemma lexDot_nodeLines:
  "\<forall>n \<in> set ns. clean (ID n) \<and> clean (Name n) \<Longrightarrow>
   lexDot Outside (concat (map nodeLine ns) @ rest) =
     map_option ((@) (concat (map nodeTokens ns))) (lexDot Outside rest)"
proof (induction ns)
  case Nil
  show ?case by (cases "lexDot Outside rest") simp_all
next
  case (Cons n ns)
  then show ?case by (cases "lexDot Outside rest") (simp_all add: lexDot_nodeLine)
qed

lemma lexDot_edgeLines:
  "\<forall>e \<in> set es. clean (From e) \<and> clean (To e) \<Longrightarrow>
   lexDot Outside (concat (map edgeLine es) @ rest) =
     map_option ((@) (concat (map edgeTokens es))) (lexDot Outside rest)"
proof (induction es)
  case Nil
  show ?case by (cases "lexDot Outside rest") simp_all
next
  case (Cons e es)
  then show ?case by (cases "lexDot Outside rest") (simp_all add: lexDot_edgeLine)
qed

lemma lexDot_header:
  "lexDot Outside (dotHeader @ rest) = map_option ((@) preamble) (lexDot Outside rest)"
  by (cases "lexDot Outside rest")
     (simp_all add: dotHeader_def preamble_def outsideStep_def isSpace_def isIdChar_def
        dquote_def newline_def)

lemma lexDot_brace:
  "lexDot Outside (''}'' @ [newline]) = Some [Sym (CHR ''}'')]"
  by (simp add: outsideStep_def isSpace_def isIdChar_def dquote_def newline_def)

lemma lexDot_dotDescription:
  assumes "\<forall>n \<in> set (Nodes go). clean (ID n) \<and> clean (Name n)"
    and "\<forall>e \<in> set (Edges go). clean (From e) \<and> clean (To e)"
  shows "lexDot Outside (dotDescription go) =
    Some (preamble @ concat (map nodeTokens (Nodes go)) @ concat (map edgeTokens (Edges go)) @
      [Sym (CHR ''}'')])"
proof -
  have "dotDescription go =
      dotHeader @ (concat (map nodeLine (Nodes go)) @ (concat (map edgeLine (Edges go)) @
        (''}'' @ [newline])))"
    by (simp add: dotDescription_def)
  then show ?thesis
    by (simp only: lexDot_header lexDot_nodeLines [OF assms(1)] lexDot_edgeLines [OF assms(2)]
        lexDot_brace map_option_append option.map)
qed

subsection \<open>Statements of the description text\<close>

lemma readStmts_edges:
  "readStmts (concat (map edgeTokens es) @ [Sym (CHR ''}'')]) =
     Some ([], map (\<lambda>e. (From e, To e)) es)"
  by (induction es) (simp_all add: edgeTokens_def addEdgeStmt_def)

lemma readStmts_nodes:
  "readStmts (concat (map nodeTokens ns) @ concat (map edgeTokens es) @ [Sym (CHR ''}'')]) =
     Some (map (\<lambda>n. (ID n, Name n)) ns, map (\<lambda>e. (From e, To e)) es)"
  by (induction ns) (simp_all add: readStmts_edges nodeTokens_def addNodeStmt_def)

subsection \<open>The round trip\<close>

lemma buildFamilyGraph_no_parents:
  "\<forall>m \<in> set ms. ParentName m = [] \<Longrightarrow> fst (buildFamilyGraph ms) = \<lparr>Nodes = ms, Edges = []\<rparr>"
proof -
  assume "\<forall>m \<in> set ms. ParentName m = []"
  then have "filter (resolvable (nameToID_of ms)) ms = []"
    by (auto simp: resolvable_def filter_empty_conv)
  then have "Edges (fst (buildFamilyGraph ms)) = []" by (simp add: buildFamilyGraph_Edges)
  then show ?thesis by (simp add: buildFamilyGraph_unfold)
qed

lemma familyData_Edges:
  "Edges (fst (buildFamilyGraph familyData)) =
     [\<lparr>From = ''1'', To = ''3''\<rparr>, \<lparr>From = ''2'', To = ''4''\<rparr>,
      \<lparr>From = ''2'', To = ''5''\<rparr>, \<lparr>From = ''4'', To = ''6''\<rparr>]"
  by code_simp

text \<open>
  Claim C9 says that reading the description text back yields the nodes (with their labels)
  and the edges of the GraphOutput, whatever the GraphOutput. renderPNG copies IDs and
  names between double quotes without escaping anything. A name with a nickname in double
  quotes gives a text that is not in the grammar, and so does a name that ends with a
  backslash, which escapes the closing double quote. A name can also carry a whole node
  statement: the text written for the one member of \<open>smuggled\<close> is the text written for the
  two members of \<open>plain\<close>, so that no reader at all can give back the nodes of both, and
  \<open>readDot\<close> reads two nodes where the GraphOutput has one.
\<close>

theorem description_round_trip_counterexample:
  "Nodes (fst (buildFamilyGraph smuggled)) = smuggled \<and>
   map ID smuggled = [''a''] \<and>
   readDot (dotDescription (fst (buildFamilyGraph smuggled)))
     = Some ([(''a'', ''x''), (''b'', ''y'')], []) \<and>
   dotDescription (fst (buildFamilyGraph smuggled)) = dotDescription (fst (buildFamilyGraph plain)) \<and>
   map ID plain = [''a'', ''b''] \<and>
   readDot (dotDescription (fst (buildFamilyGraph nickname))) = None \<and>
   readDot (dotDescription (fst (buildFamilyGraph trailing))) = None"
proof -
  have t: "fst (buildFamilyGraph trailing) = \<lparr>Nodes = trailing, Edges = []\<rparr>"
    by (rule buildFamilyGraph_no_parents) (simp add: trailing_def)
  have "lexDot Outside (dotDescription \<lparr>Nodes = trailing, Edges = []\<rparr>) = None"
    unfolding dotDescription_def append_assoc lexDot_header
    by (simp add: trailing_def nodeLine_def quoted_def outsideStep_def isSpace_def isIdChar_def
        dquote_def newline_def backslash_def)
  then have b: "readDot (dotDescription \<lparr>Nodes = trailing, Edges = []\<rparr>) = None"
    by (simp add: readDot_def)
  have s: "fst (buildFamilyGraph smuggled) = \<lparr>Nodes = smuggled, Edges = []\<rparr>"
    by (rule buildFamilyGraph_no_parents) (simp add: smuggled_def)
  have p: "fst (buildFamilyGraph plain) = \<lparr>Nodes = plain, Edges = []\<rparr>"
    by (rule buildFamilyGraph_no_parents) (simp add: plain_def)
  have n: "fst (buildFamilyGraph nickname) = \<lparr>Nodes = nickname, Edges = []\<rparr>"
    by (rule buildFamilyGraph_no_parents) (simp add: nickname_def)
  have e: "dotDescription \<lparr>Nodes = smuggled, Edges = []\<rparr> = dotDescription \<lparr>Nodes = plain, Edges = []\<rparr>"
    by (simp add: dotDescription_def smuggled_def plain_def nodeLine_def quoted_def)
  have "clean ''a'' \<and> clean ''x'' \<and> clean ''b'' \<and> clean ''y''"
    by (simp add: clean_def dquote_def backslash_def)
  then have "readDot (dotDescription \<lparr>Nodes = plain, Edges = []\<rparr>)
      = Some ([(''a'', ''x''), (''b'', ''y'')], [])"
    using lexDot_dotDescription [of "\<lparr>Nodes = plain, Edges = []\<rparr>"] readStmts_nodes [of plain "[]"]
    by (simp add: readDot_def plain_def)
  then have r: "readDot (dotDescription \<lparr>Nodes = smuggled, Edges = []\<rparr>)
      = Some ([(''a'', ''x''), (''b'', ''y'')], [])"
    by (simp only: e)
  have l: "lexDot Outside (dotDescription \<lparr>Nodes = nickname, Edges = []\<rparr>) =
      Some (preamble @
        [Str ''1'', Sym (CHR ''[''), Ident ''label'', Sym (CHR ''=''), Str ''Ann '', Ident ''Annie'',
         Str '' Lee'', Sym (CHR '']''), Sym (CHR '';''), Sym (CHR ''}'')])"
    unfolding dotDescription_def append_assoc lexDot_header
    by (simp add: nickname_def nodeLine_def quoted_def outsideStep_def isSpace_def isIdChar_def
        dquote_def newline_def backslash_def)
  have k: "readDot (dotDescription \<lparr>Nodes = nickname, Edges = []\<rparr>) = None"
    by (simp add: readDot_def l)
  show ?thesis
    using r e k b by (simp add: s p n t) (simp add: smuggled_def plain_def)
qed

text \<open>
  Claim C9 as amended: for every GraphOutput in which no ID and no name (of a node or of an
  edge's end) contains a double quote or a backslash, reading the description text written
  by renderPNG yields the node statements (ID, with the name as label) and the edge
  statements (from, to) of the GraphOutput, one for one and in order.
\<close>

theorem description_round_trip:
  assumes "\<forall>n \<in> set (Nodes graphOut). clean (ID n) \<and> clean (Name n)"
    and "\<forall>e \<in> set (Edges graphOut). clean (From e) \<and> clean (To e)"
  shows "readDot (dotDescription graphOut) =
    Some (map (\<lambda>n. (ID n, Name n)) (Nodes graphOut), map (\<lambda>e. (From e, To e)) (Edges graphOut))"
  using lexDot_dotDescription [OF assms]
  by (simp add: readDot_def readStmts_nodes)

theorem description_round_trip_witness:
  "readDot (dotDescription (fst (buildFamilyGraph familyData))) =
     Some ([(''1'', ''Jordon D''), (''2'', ''Robert Smith''), (''3'', ''Danis Jordan''),
            (''4'', ''John Smith''), (''5'', ''Maria Smith''), (''6'', ''Leo Smith'')],
           [(''1'', ''3''), (''2'', ''4''), (''2'', ''5''), (''4'', ''6'')])"
proof -
  have n: "\<forall>n \<in> set (Nodes (fst (buildFamilyGraph familyData))). clean (ID n) \<and> clean (Name n)"
    by (simp add: familyData_def clean_def dquote_def backslash_def)
  have e: "\<forall>e \<in> set (Edges (fst (buildFamilyGraph familyData))). clean (From e) \<and> clean (To e)"
    by (simp add: familyData_Edges clean_def dquote_def backslash_def)
  show ?thesis
    using description_round_trip [OF n e] by (simp add: familyData_Edges) (simp add: familyData_def)
qed

end
